theory Spec2Isabelle
  imports Main "HOL-Library.Word"
begin

unbundle bit_operations_syntax

section \<open>USB hub driver (the hub.c text held in drivers/usb/gadget/u_serial.h)\<close>

subsection \<open>Error numbers and constants\<close>

text \<open>
  The errno macros come from the kernel headers, which are not part of the sources at
  hand; they are given their asm-generic values. Functions return them negated, as the C
  code does.
\<close>

definition ENOENT :: int where "ENOENT = 2"
definition EIO :: int where "EIO = 5"
definition EBUSY :: int where "EBUSY = 16"
definition ENODEV :: int where "ENODEV = 19"
definition EINVAL :: int where "EINVAL = 22"
definition EPIPE :: int where "EPIPE = 32"
definition ENOTCONN :: int where "ENOTCONN = 107"
definition ETIMEDOUT :: int where "ETIMEDOUT = 110"

lemmas errno_defs =
  ENOENT_def EIO_def EBUSY_def ENODEV_def EINVAL_def EPIPE_def ENOTCONN_def ETIMEDOUT_def

definition USB_STS_RETRIES :: nat where "USB_STS_RETRIES = 5"

subsection \<open>Port Status Reader: get_hub_status, get_port_status, hub_port_status\<close>

text \<open>
  \<open>usb_control_msg\<close> is the host controller's work. The model takes its outcomes as an
  input: \<open>msg i\<close> is the return value of the \<open>i\<close>-th GET_STATUS transfer of one status
  query (a byte count, or a negated errno) together with the contents of the data buffer
  after that transfer.
\<close>

record usb_port_status =
  wPortStatus :: "16 word"
  wPortChange :: "16 word"

record usb_hub_status =
  wHubStatus :: "16 word"
  wHubChange :: "16 word"

type_synonym 'd control_msg = "nat \<Rightarrow> int \<times> 'd"

text \<open>
  The loop shared by both readers:
  \<^verbatim>\<open>for (i = 0; i < USB_STS_RETRIES && (status == -ETIMEDOUT || status == -EPIPE); i++)
      status = usb_control_msg(...);\<close>
  The result is the last status, the buffer, and \<open>i\<close>, the number of transfers issued.
\<close>

function sts_retry_loop :: "'d control_msg \<Rightarrow> nat \<Rightarrow> int \<Rightarrow> 'd \<Rightarrow> int \<times> 'd \<times> nat" where
  "sts_retry_loop msg i status data =
     (if i < USB_STS_RETRIES \<and> (status = - ETIMEDOUT \<or> status = - EPIPE)
      then sts_retry_loop msg (i + 1) (fst (msg i)) (snd (msg i))
      else (status, data, i))"
  by pat_completeness auto
termination
  by (relation "measure (\<lambda>(msg, i, status, data). USB_STS_RETRIES - i)") auto

declare sts_retry_loop.simps [simp del]

definition get_hub_status :: "usb_hub_status control_msg \<Rightarrow> usb_hub_status
    \<Rightarrow> int \<times> usb_hub_status \<times> nat" where
  "get_hub_status msg data = sts_retry_loop msg 0 (- ETIMEDOUT) data"

definition get_port_status :: "usb_port_status control_msg \<Rightarrow> usb_port_status
    \<Rightarrow> int \<times> usb_port_status \<times> nat" where
  "get_port_status msg data = sts_retry_loop msg 0 (- ETIMEDOUT) data"

text \<open>
  \<open>hub_port_status\<close>: a short read (fewer than 4 bytes) is \<open>-EIO\<close>, an error is
  passed on, and otherwise the two words are decoded (\<open>le16_to_cpu\<close> is the identity on
  the little-endian target). The out-parameters \<open>*status\<close> and \<open>*change\<close> are written
  only on success, so the result is \<open>Inl ret\<close> with \<open>ret < 0\<close>, or \<open>Inr\<close> of the two
  words with return value 0. The second component is the hub's status buffer afterwards.
\<close>

definition hub_port_status :: "usb_port_status control_msg \<Rightarrow> usb_port_status
    \<Rightarrow> (int + 16 word \<times> 16 word) \<times> usb_port_status" where
  "hub_port_status msg buf =
     (case get_port_status msg buf of (ret, buf', n) \<Rightarrow>
        if ret < 4 then (Inl (if ret \<ge> 0 then - EIO else ret), buf')
        else (Inr (wPortStatus buf', wPortChange buf'), buf'))"

definition retryable :: "int \<Rightarrow> bool" where
  "retryable status \<longleftrightarrow> status = - ETIMEDOUT \<or> status = - EPIPE"

subsection \<open>Port status bits\<close>

text \<open>
  The bit masks of \<open>wPortStatus\<close> and \<open>wPortChange\<close> are those of the USB hub class
  (ch11.h, which the sources at hand use but do not contain).
\<close>

definition USB_PORT_STAT_CONNECTION :: "16 word" where "USB_PORT_STAT_CONNECTION = 0x0001"
definition USB_PORT_STAT_C_CONNECTION :: "16 word" where "USB_PORT_STAT_C_CONNECTION = 0x0001"

subsection \<open>Debounce Engine: hub_port_debounce\<close>

definition HUB_DEBOUNCE_TIMEOUT :: int where "HUB_DEBOUNCE_TIMEOUT = 2000"
definition HUB_DEBOUNCE_STEP :: int where "HUB_DEBOUNCE_STEP = 25"
definition HUB_DEBOUNCE_STABLE :: int where "HUB_DEBOUNCE_STABLE = 100"

text \<open>
  A port is sampled many times. \<open>wire k\<close> gives the transfers of the \<open>k\<close>-th call of
  \<open>hub_port_status\<close>. The loop state holds the C locals, the hub's status buffer, and
  what the loop did to the outside: the number of status queries, the number of
  \<open>usb_clear_port_feature(..., USB_PORT_FEAT_C_CONNECTION)\<close> requests and the
  milliseconds spent in \<open>msleep\<close>.
\<close>

type_synonym port_wire = "nat \<Rightarrow> usb_port_status control_msg"

record debounce_state =
  total_time :: int
  stable_time :: int
  connection :: "32 word"
  portstatus :: "16 word"
  status_buf :: usb_port_status
  polls :: nat
  cleared :: nat
  slept :: int

text \<open>
  One pass through the loop body after a successful status read, up to the
  \<open>msleep\<close>. The flag tells whether the body left the loop by \<open>break\<close>.
\<close>

definition debounce_body :: "bool \<Rightarrow> 16 word \<Rightarrow> 16 word \<Rightarrow> debounce_state
    \<Rightarrow> bool \<times> debounce_state" where
  "debounce_body must_be_connected pstatus pchange s =
     (let s0 = s\<lparr>portstatus := pstatus\<rparr>;
          conn = (ucast (pstatus AND USB_PORT_STAT_CONNECTION) :: 32 word)
      in if pchange AND USB_PORT_STAT_C_CONNECTION = 0 \<and> conn = connection s0
         then
           (let s1 = (if \<not> must_be_connected
                          \<or> connection s0 = ucast USB_PORT_STAT_CONNECTION
                      then s0\<lparr>stable_time := stable_time s0 + HUB_DEBOUNCE_STEP\<rparr>
                      else s0)
            in if stable_time s1 \<ge> HUB_DEBOUNCE_STABLE then (True, s1)
               else (total_time s1 \<ge> HUB_DEBOUNCE_TIMEOUT, s1))
         else
           (let s1 = s0\<lparr>stable_time := 0, connection := conn\<rparr>;
                s2 = (if pchange AND USB_PORT_STAT_C_CONNECTION \<noteq> 0
                      then s1\<lparr>cleared := cleared s1 + 1\<rparr> else s1)
            in (total_time s2 \<ge> HUB_DEBOUNCE_TIMEOUT, s2)))"

text \<open>What follows the loop: the verdict on the stable time.\<close>

definition debounce_result :: "debounce_state \<Rightarrow> int" where
  "debounce_result s =
     (if stable_time s < HUB_DEBOUNCE_STABLE then - ETIMEDOUT else uint (portstatus s))"

function hub_port_debounce_loop :: "port_wire \<Rightarrow> bool \<Rightarrow> debounce_state
    \<Rightarrow> int \<times> debounce_state" where
  "hub_port_debounce_loop wire must_be_connected s =
     (let r = hub_port_status (wire (polls s)) (status_buf s);
          s' = s\<lparr>status_buf := snd r, polls := polls s + 1\<rparr>
      in case fst r of
           Inl ret \<Rightarrow> (ret, s')
         | Inr (pstatus, pchange) \<Rightarrow>
             (let b = debounce_body must_be_connected pstatus pchange s'
              in if fst b then (debounce_result (snd b), snd b)
                 else hub_port_debounce_loop wire must_be_connected
                        ((snd b)\<lparr>slept := slept (snd b) + HUB_DEBOUNCE_STEP,
                                 total_time := total_time (snd b) + HUB_DEBOUNCE_STEP\<rparr>)))"
  by pat_completeness auto
termination
  by (relation "measure (\<lambda>(wire, mbc, s).
        nat (HUB_DEBOUNCE_TIMEOUT + HUB_DEBOUNCE_STEP - total_time s))")
     (auto simp: debounce_body_def Let_def HUB_DEBOUNCE_TIMEOUT_def HUB_DEBOUNCE_STEP_def
           split: if_splits)

declare hub_port_debounce_loop.simps [simp del]

text \<open>
  \<open>hub_port_debounce\<close> starts with \<open>total_time = 0\<close>, \<open>stable_time = 0\<close> and
  \<open>connection = 0xffff\<close>. The local \<open>portstatus\<close> is uninitialised in C and is
  written by the first successful read before anything reads it; the model starts it at 0.
\<close>

definition hub_port_debounce :: "port_wire \<Rightarrow> usb_port_status \<Rightarrow> bool
    \<Rightarrow> int \<times> debounce_state" where
  "hub_port_debounce wire buf must_be_connected =
     hub_port_debounce_loop wire must_be_connected
       \<lparr>total_time = 0, stable_time = 0, connection = 0xffff, portstatus = 0,
        status_buf = buf, polls = 0, cleared = 0, slept = 0\<rparr>"

subsection \<open>Port reset: hub_port_wait_reset\<close>








subsection \<open>Devices, hubs and ports\<close>

text \<open>
  What can go wrong below the level of return values: a NULL pointer followed, an array
  read past its end, and \<open>BUG_ON\<close>.
\<close>

datatype fault = NullDeref | OutOfBounds | BUG

datatype usb_device_state =
    USB_STATE_NOTATTACHED | USB_STATE_ATTACHED | USB_STATE_POWERED
  | USB_STATE_RECONNECTING | USB_STATE_UNAUTHENTICATED | USB_STATE_DEFAULT
  | USB_STATE_ADDRESS | USB_STATE_CONFIGURED | USB_STATE_SUSPENDED

text \<open>
  The fields of \<open>struct usb_device\<close> that the functions below read or write.
  \<open>has_parent\<close> is \<open>udev->parent != NULL\<close>; \<open>actconfig\<close> is \<open>None\<close> for a NULL
  pointer and otherwise holds \<open>actconfig->desc.bmAttributes\<close>.
\<close>

record usb_device_struct =
  state :: usb_device_state
  devnum :: int
  portnum :: "8 word"
  wusb :: bool
  active_duration :: "64 word"
  has_parent :: bool
  actconfig :: "8 word option"
  maxchild :: int

text \<open>
  A port holds its child device and its owner (\<open>struct dev_state *\<close>, \<open>None\<close> for
  NULL). A hub holds the port array. A device is its struct together with the driver data
  of its interface 0 (\<open>usb_get_intfdata(hdev->actconfig->interface[0])\<close>), which is the
  hub structure once \<open>hub_probe\<close> has set it. Children are held inside their port, so the
  devices below a hub form a tree.
\<close>

datatype 'dev usb_port = Usb_port (child: "'dev option") (port_owner: "nat option")

datatype 'dev usb_hub = Usb_hub (ports: "'dev usb_port list")

datatype usb_device =
  Usb_device (dev: usb_device_struct) (intfdata: "usb_device usb_hub option")

definition usb_hub_to_struct_hub :: "usb_device option \<Rightarrow> usb_device usb_hub option" where
  "usb_hub_to_struct_hub hdev =
     (case hdev of
        None \<Rightarrow> None
      | Some d \<Rightarrow> if actconfig (dev d) = None \<or> maxchild (dev d) = 0 then None
                  else intfdata d)"

subsection \<open>Device Tree Manager: usb_set_device_state\<close>

text \<open>
  \<open>recursively_mark_NOTATTACHED\<close>. The loop \<open>for (i = 0; i < udev->maxchild; ++i)\<close>
  over \<open>hub->ports[i]\<close> is \<open>mark_children\<close>: its arguments are the number of
  iterations left (\<open>maxchild - i\<close>) and the ports from index \<open>i\<close> on; reading a port
  past the end of the array is \<open>OutOfBounds\<close>. \<open>jiffies\<close> is the kernel's tick counter.
\<close>

function recursively_mark_NOTATTACHED :: "64 word \<Rightarrow> usb_device \<Rightarrow> fault + usb_device"
  and mark_children :: "64 word \<Rightarrow> nat \<Rightarrow> usb_device usb_port list
      \<Rightarrow> fault + usb_device usb_port list" where
  "recursively_mark_NOTATTACHED jiffies udev =
     (case usb_hub_to_struct_hub (Some udev) of
        None \<Rightarrow> Inr udev
      | Some hub \<Rightarrow>
          (case mark_children jiffies (nat (maxchild (dev udev))) (ports hub) of
             Inl f \<Rightarrow> Inl f
           | Inr ps \<Rightarrow>
               Inr (Usb_device
                 ((dev udev)\<lparr>active_duration :=
                     (if state (dev udev) = USB_STATE_SUSPENDED
                      then active_duration (dev udev) - jiffies
                      else active_duration (dev udev)),
                   state := USB_STATE_NOTATTACHED\<rparr>)
                 (Some (Usb_hub ps)))))"
| "mark_children jiffies 0 ps = Inr ps"
| "mark_children jiffies (Suc n) [] = Inl OutOfBounds"
| "mark_children jiffies (Suc n) (p # ps) =
     (case child p of
        None \<Rightarrow>
          (case mark_children jiffies n ps of
             Inl f \<Rightarrow> Inl f
           | Inr ps' \<Rightarrow> Inr (p # ps'))
      | Some c \<Rightarrow>
          (case recursively_mark_NOTATTACHED jiffies c of
             Inl f \<Rightarrow> Inl f
           | Inr c' \<Rightarrow>
               (case mark_children jiffies n ps of
                  Inl f \<Rightarrow> Inl f
                | Inr ps' \<Rightarrow> Inr (Usb_port (Some c') (port_owner p) # ps'))))"
  by pat_completeness auto
termination
proof (relation "measure (\<lambda>x. case x of Inl (j, u) \<Rightarrow> size u
                        | Inr (j, n, ps) \<Rightarrow> size_list (size_usb_port size) ps)",
       goal_cases)
  case 1
  show ?case by simp
next
  case (2 jiffies udev hub)
  then have "intfdata udev = Some hub"
    by (simp add: usb_hub_to_struct_hub_def split: if_splits)
  then show ?case by (cases udev; cases hub) simp
next
  case (3 jiffies n p ps)
  show ?case by simp
next
  case (4 jiffies n p ps c)
  then show ?case by (cases p) simp
next
  case (5 jiffies n p ps c c')
  show ?case by simp
qed

definition USB_CONFIG_ATT_WAKEUP :: "8 word" where "USB_CONFIG_ATT_WAKEUP = 0x20"

text \<open>
  \<open>usb_set_device_state\<close>. The result is the device afterwards and the local
  \<open>wakeup\<close>, which is passed to \<open>device_set_wakeup_capable\<close> when it is not negative.
\<close>

definition state_wakeup :: "usb_device_struct \<Rightarrow> usb_device_state \<Rightarrow> fault + int" where
  "state_wakeup d new_state =
     (if has_parent d then
        (if state d = USB_STATE_SUSPENDED \<or> new_state = USB_STATE_SUSPENDED then Inr (- 1)
         else if new_state = USB_STATE_CONFIGURED then
           (case actconfig d of
              None \<Rightarrow> Inl NullDeref
            | Some bmAttributes \<Rightarrow> Inr (uint (bmAttributes AND USB_CONFIG_ATT_WAKEUP)))
         else Inr 0)
      else Inr (- 1))"

definition usb_set_device_state :: "64 word \<Rightarrow> usb_device \<Rightarrow> usb_device_state
    \<Rightarrow> fault + usb_device \<times> int" where
  "usb_set_device_state jiffies udev new_state =
     (if state (dev udev) = USB_STATE_NOTATTACHED then Inr (udev, - 1)
      else if new_state \<noteq> USB_STATE_NOTATTACHED then
        (case state_wakeup (dev udev) new_state of
           Inl f \<Rightarrow> Inl f
         | Inr wakeup \<Rightarrow>
             Inr (Usb_device
                    ((dev udev)\<lparr>active_duration :=
                        (if state (dev udev) = USB_STATE_SUSPENDED
                            \<and> new_state \<noteq> USB_STATE_SUSPENDED
                         then active_duration (dev udev) - jiffies
                         else if new_state = USB_STATE_SUSPENDED
                            \<and> state (dev udev) \<noteq> USB_STATE_SUSPENDED
                         then active_duration (dev udev) + jiffies
                         else active_duration (dev udev)),
                      state := new_state\<rparr>)
                    (intfdata udev),
                  wakeup))
      else
        (case recursively_mark_NOTATTACHED jiffies udev of
           Inl f \<Rightarrow> Inl f
         | Inr udev' \<Rightarrow> Inr (udev', - 1)))"

text \<open>
  The devices of a subtree, the device itself first, then those below each port in port
  order: the device and its descendants.
\<close>

function devices :: "usb_device \<Rightarrow> usb_device list"
  and port_devices :: "usb_device usb_port list \<Rightarrow> usb_device list" where
  "devices udev =
     udev # (case intfdata udev of None \<Rightarrow> [] | Some hub \<Rightarrow> port_devices (ports hub))"
| "port_devices [] = []"
| "port_devices (p # ps) =
     (case child p of None \<Rightarrow> [] | Some c \<Rightarrow> devices c) @ port_devices ps"
  by pat_completeness auto
termination
proof (relation "measure (\<lambda>x. case x of Inl u \<Rightarrow> size u
                        | Inr ps \<Rightarrow> size_list (size_usb_port size) ps)",
       goal_cases)
  case 1
  show ?case by simp
next
  case (2 udev hub)
  then show ?case by (cases udev; cases hub) simp
next
  case (3 p ps c)
  then show ?case by (cases p) simp
next
  case (4 p ps)
  show ?case by simp
qed

subsection \<open>Port ownership and topology query\<close>

text \<open>
  \<open>find_port_owner\<close> hands back a pointer to the owner field of a port; the model hands
  back the index of the port in the array. \<open>port1\<close> is \<open>unsigned\<close>, and the comparison
  \<open>port1 > hdev->maxchild\<close> converts the \<open>int\<close> to unsigned.
\<close>

definition find_port_owner :: "usb_device option \<Rightarrow> 32 word \<Rightarrow> fault + int \<times> nat" where
  "find_port_owner hdev port1 =
     (case usb_hub_to_struct_hub hdev of
        None \<Rightarrow> Inr (- ENODEV, 0)
      | Some hub \<Rightarrow>
          (case hdev of
             None \<Rightarrow> Inr (- ENODEV, 0)
           | Some d \<Rightarrow>
               if state (dev d) = USB_STATE_NOTATTACHED then Inr (- ENODEV, 0)
               else if port1 = 0 \<or> port1 > word_of_int (maxchild (dev d))
                 then Inr (- EINVAL, 0)
               else if unat port1 - 1 < length (ports hub) then Inr (0, unat port1 - 1)
               else Inl OutOfBounds))"

definition set_port_owner :: "usb_device \<Rightarrow> nat \<Rightarrow> nat option \<Rightarrow> usb_device" where
  "set_port_owner d i owner =
     (case intfdata d of
        None \<Rightarrow> d
      | Some hub \<Rightarrow>
          Usb_device (dev d)
            (Some (Usb_hub ((ports hub)[i := Usb_port (child (ports hub ! i)) owner]))))"

definition get_port_owner :: "usb_device \<Rightarrow> nat \<Rightarrow> nat option" where
  "get_port_owner d i =
     (case intfdata d of None \<Rightarrow> None | Some hub \<Rightarrow> port_owner (ports hub ! i))"

text \<open>
  Both calls give the return code and the hub device afterwards. When
  \<open>find_port_owner\<close> returns 0 the hub device is not NULL and the index is inside the
  port array, so the two accessors above are used in range only.
\<close>

definition usb_hub_claim_port :: "usb_device option \<Rightarrow> 32 word \<Rightarrow> nat option
    \<Rightarrow> fault + int \<times> usb_device option" where
  "usb_hub_claim_port hdev port1 owner =
     (case find_port_owner hdev port1 of
        Inl f \<Rightarrow> Inl f
      | Inr (rc, i) \<Rightarrow>
          if rc \<noteq> 0 then Inr (rc, hdev)
          else (case hdev of
                  None \<Rightarrow> Inl NullDeref
                | Some d \<Rightarrow>
                    if get_port_owner d i \<noteq> None then Inr (- EBUSY, hdev)
                    else Inr (rc, Some (set_port_owner d i owner))))"

definition usb_hub_release_port :: "usb_device option \<Rightarrow> 32 word \<Rightarrow> nat option
    \<Rightarrow> fault + int \<times> usb_device option" where
  "usb_hub_release_port hdev port1 owner =
     (case find_port_owner hdev port1 of
        Inl f \<Rightarrow> Inl f
      | Inr (rc, i) \<Rightarrow>
          if rc \<noteq> 0 then Inr (rc, hdev)
          else (case hdev of
                  None \<Rightarrow> Inl NullDeref
                | Some d \<Rightarrow>
                    if get_port_owner d i \<noteq> owner then Inr (- ENOENT, hdev)
                    else Inr (rc, Some (set_port_owner d i None))))"

text \<open>\<open>usb_hub_find_child\<close>: \<open>port1\<close> is an \<open>int\<close> here. \<open>Inr None\<close> is the NULL result.\<close>

definition usb_hub_find_child :: "usb_device option \<Rightarrow> int \<Rightarrow> fault + usb_device option" where
  "usb_hub_find_child hdev port1 =
     (case usb_hub_to_struct_hub hdev of
        None \<Rightarrow> Inr None
      | Some hub \<Rightarrow>
          (case hdev of
             None \<Rightarrow> Inr None
           | Some d \<Rightarrow>
               if port1 < 1 \<or> port1 > maxchild (dev d) then Inr None
               else if nat (port1 - 1) < length (ports hub)
                 then Inr (child (ports hub ! nat (port1 - 1)))
               else Inl OutOfBounds))"

subsection \<open>Address allocation: choose_devnum, release_devnum\<close>

record usb_bus =
  devicemap :: "128 word"
  devnum_next :: int

text \<open>
  Modelled from the spec: \<open>find_next_zero_bit\<close> is a kernel library routine that the
  sources at hand call but do not contain. "Finds the next free bit starting after the
  last assigned": \<open>find_next_zero_bit addr size offset\<close> is the least index \<open>i\<close> with
  \<open>offset \<le> i < size\<close> whose bit is clear, and \<open>size\<close> when there is none.
\<close>

function find_next_zero_bit :: "128 word \<Rightarrow> nat \<Rightarrow> nat \<Rightarrow> nat" where
  "find_next_zero_bit addr sz offset =
     (if offset \<ge> sz then sz
      else if \<not> bit addr offset then offset
      else find_next_zero_bit addr sz (offset + 1))"
  by pat_completeness auto
termination
  by (relation "measure (\<lambda>(addr, sz, offset). sz - offset)") auto

declare find_next_zero_bit.simps [simp del]

text \<open>
  \<open>choose_devnum\<close>. \<open>bus->devnum_next\<close> is an \<open>int\<close> passed as an \<open>unsigned long\<close>
  offset. A wireless device takes \<open>portnum + 1\<close>, and \<open>BUG_ON\<close> stops the kernel when
  that bit is taken; \<open>test_bit\<close> of a number beyond the 128-bit map reads past it.
\<close>

definition assign_devnum :: "usb_bus \<Rightarrow> usb_device_struct \<Rightarrow> int
    \<Rightarrow> usb_bus \<times> usb_device_struct" where
  "assign_devnum bus udev dn =
     (if dn < 128
      then (bus\<lparr>devicemap := set_bit (nat dn) (devicemap bus)\<rparr>, udev\<lparr>devnum := dn\<rparr>)
      else (bus, udev))"

definition choose_devnum :: "usb_bus \<Rightarrow> usb_device_struct
    \<Rightarrow> fault + usb_bus \<times> usb_device_struct" where
  "choose_devnum bus udev =
     (if wusb udev then
        (let dn = uint (portnum udev) + 1
         in if dn \<ge> 128 then Inl OutOfBounds
            else if bit (devicemap bus) (nat dn) then Inl BUG
            else Inr (assign_devnum bus udev dn))
      else
        (let d0 = int (find_next_zero_bit (devicemap bus) 128
                         (unat (word_of_int (devnum_next bus) :: 64 word)));
             dn = (if d0 \<ge> 128 then int (find_next_zero_bit (devicemap bus) 128 1) else d0);
             bus' = bus\<lparr>devnum_next := (if dn \<ge> 127 then 1 else dn + 1)\<rparr>
         in Inr (assign_devnum bus' udev dn)))"

text \<open>\<open>release_devnum\<close>: \<open>clear_bit\<close> of a number beyond the map writes past it.\<close>

definition release_devnum :: "usb_bus \<Rightarrow> usb_device_struct
    \<Rightarrow> fault + usb_bus \<times> usb_device_struct" where
  "release_devnum bus udev =
     (if devnum udev > 0 then
        (if devnum udev \<ge> 128 then Inl OutOfBounds
         else Inr (bus\<lparr>devicemap := unset_bit (nat (devnum udev)) (devicemap bus)\<rparr>,
                   udev\<lparr>devnum := - 1\<rparr>))
      else Inr (bus, udev))"

text \<open>
  A bus with its devices, each under an identifier that stands for its address in memory.
  The two operations applied to one device of the bus; a fault leaves no state to go on
  with, and is shown as the state unchanged together with the fault.
\<close>

record usb_bus_devices =
  the_bus :: usb_bus
  udevs :: "nat \<Rightarrow> usb_device_struct"

definition choose_devnum_of :: "nat \<Rightarrow> usb_bus_devices \<Rightarrow> fault + usb_bus_devices" where
  "choose_devnum_of u s =
     (case choose_devnum (the_bus s) (udevs s u) of
        Inl f \<Rightarrow> Inl f
      | Inr (b, d) \<Rightarrow> Inr (s\<lparr>the_bus := b, udevs := (udevs s)(u := d)\<rparr>))"

definition release_devnum_of :: "nat \<Rightarrow> usb_bus_devices \<Rightarrow> fault + usb_bus_devices" where
  "release_devnum_of u s =
     (case release_devnum (the_bus s) (udevs s u) of
        Inl f \<Rightarrow> Inl f
      | Inr (b, d) \<Rightarrow> Inr (s\<lparr>the_bus := b, udevs := (udevs s)(u := d)\<rparr>))"

subsection \<open>Hub Event Worker: the pending-event queue\<close>

text \<open>
  \<open>hub_event_list\<close> is the global queue; a hub is named by a number that stands for its
  address. \<open>list_empty(&hub->event_list)\<close> asks whether the hub's own list node is
  linked into the queue: every removal is \<open>list_del_init\<close>, so the node is unlinked
  exactly when the hub is not in the queue. Each function below is the part of the C
  function that runs with \<open>hub_event_lock\<close> held, taken as one step. \<open>pm_usage\<close>
  counts \<open>usb_autopm_get_interface_no_resume\<close> against
  \<open>usb_autopm_put_interface_no_suspend\<close>, \<open>wake_ups\<close> counts \<open>wake_up(&khubd_wait)\<close>.
\<close>

record khubd_state =
  hub_event_list :: "nat list"
  disconnected :: "nat \<Rightarrow> bool"
  pm_usage :: "nat \<Rightarrow> int"
  wake_ups :: nat

definition list_empty_event_list :: "khubd_state \<Rightarrow> nat \<Rightarrow> bool" where
  "list_empty_event_list s hub \<longleftrightarrow> hub \<notin> set (hub_event_list s)"

definition kick_khubd :: "nat \<Rightarrow> khubd_state \<Rightarrow> khubd_state" where
  "kick_khubd hub s =
     (if \<not> disconnected s hub \<and> list_empty_event_list s hub
      then s\<lparr>hub_event_list := hub_event_list s @ [hub],
             pm_usage := (pm_usage s)(hub := pm_usage s hub + 1),
             wake_ups := wake_ups s + 1\<rparr>
      else s)"

text \<open>The first, locked part of \<open>hub_disconnect\<close>; the teardown after it leaves the queue alone.\<close>

definition hub_disconnect :: "nat \<Rightarrow> khubd_state \<Rightarrow> khubd_state" where
  "hub_disconnect hub s =
     (let s1 = (if \<not> list_empty_event_list s hub
                then s\<lparr>hub_event_list := remove1 hub (hub_event_list s),
                       pm_usage := (pm_usage s)(hub := pm_usage s hub - 1)\<rparr>
                else s)
      in s1\<lparr>disconnected := (disconnected s1)(hub := True)\<rparr>)"

text \<open>The head of the loop in \<open>hub_events\<close>: take the first hub off the queue, if any.\<close>

definition hub_events_take :: "khubd_state \<Rightarrow> nat option \<times> khubd_state" where
  "hub_events_take s =
     (case hub_event_list s of
        [] \<Rightarrow> (None, s)
      | tmp # rest \<Rightarrow> (Some tmp, s\<lparr>hub_event_list := rest\<rparr>))"

datatype khubd_event = Kick nat | Disconnect nat | Take

fun khubd_step :: "khubd_state \<Rightarrow> khubd_event \<Rightarrow> khubd_state" where
  "khubd_step s (Kick hub) = kick_khubd hub s"
| "khubd_step s (Disconnect hub) = hub_disconnect hub s"
| "khubd_step s Take = snd (hub_events_take s)"

definition khubd_run :: "khubd_event list \<Rightarrow> khubd_state \<Rightarrow> khubd_state" where
  "khubd_run evs s = foldl khubd_step s evs"

subsection \<open>Power/Link-State Manager: usb_set_lpm_sel\<close>

text \<open>
  \<open>usb_set_lpm_sel\<close> walks \<open>udev->parent\<close>, \<open>parent->parent\<close>, ... and reads nothing
  else of the devices on the way, so a device is given here by its chain of parents; the
  root hub is the device without parent.
\<close>

datatype usb_device_path = Usb_device_path (parent: "usb_device_path option")

record usb3_lpm_parameters =
  mel :: "32 word"
  pel :: "32 word"
  sel :: "32 word"
  timeout :: int

text \<open>
  \<^verbatim>\<open>for (parent = udev->parent, num_hubs = 0; parent->parent; parent = parent->parent)
      num_hubs++;\<close>
\<close>

fun count_hubs :: "usb_device_path \<Rightarrow> 32 word \<Rightarrow> 32 word" where
  "count_hubs (Usb_device_path None) num_hubs = num_hubs"
| "count_hubs (Usb_device_path (Some pp)) num_hubs = count_hubs pp (num_hubs + 1)"

definition usb_set_lpm_sel :: "usb_device_path \<Rightarrow> usb3_lpm_parameters
    \<Rightarrow> fault + usb3_lpm_parameters" where
  "usb_set_lpm_sel udev udev_lpm_params =
     (case parent udev of
        None \<Rightarrow> Inl NullDeref
      | Some p \<Rightarrow>
          (let total_sel = pel udev_lpm_params;
               num_hubs = count_hubs p 0;
               total_sel = (if num_hubs > 0 then total_sel + (2100 + 250 * (num_hubs - 1))
                            else total_sel);
               total_sel = total_sel + 250 * num_hubs
           in Inr (udev_lpm_params\<lparr>sel := total_sel\<rparr>)))"

text \<open>The number of devices above a device: its parent, the parent's parent, and so on.\<close>

fun ancestors :: "usb_device_path \<Rightarrow> nat" where
  "ancestors (Usb_device_path None) = 0"
| "ancestors (Usb_device_path (Some pp)) = Suc (ancestors pp)"

subsection \<open>Notions used to state the properties\<close>

text \<open>The connection bit of a status reading, as the debounce loop compares it.\<close>

definition connection_bit :: "usb_port_status \<Rightarrow> 32 word" where
  "connection_bit d = ucast (wPortStatus d AND USB_PORT_STAT_CONNECTION)"

text \<open>
  A port whose every status query succeeds at the first transfer, reports no change bit,
  and whose connection bit differs from one sample to the next.
\<close>

definition toggling_wire :: port_wire where
  "toggling_wire k i = (4, \<lparr>wPortStatus = (if even k then 1 else 0), wPortChange = 0\<rparr>)"









text \<open>
  The System Exit Latency in nanoseconds as a number, from the Path Exit Latency and the
  number of external hubs between the device and the root port.
\<close>

definition system_exit_latency :: "nat \<Rightarrow> nat \<Rightarrow> nat" where
  "system_exit_latency p n = (if n > 0 then p + 2100 + 250 * (n - 1) + 250 * n else p)"

text \<open>An external hub below an external hub below the root hub.\<close>

definition two_hubs_below_root :: usb_device_path where
  "two_hubs_below_root =
     Usb_device_path (Some (Usb_device_path (Some (Usb_device_path None))))"

text \<open>A status query that times out twice and then delivers four bytes.\<close>

definition retry_twice_msg :: "usb_port_status control_msg" where
  "retry_twice_msg i =
     (if i < 2 then (- ETIMEDOUT, \<lparr>wPortStatus = 0, wPortChange = 0\<rparr>)
      else (4, \<lparr>wPortStatus = 0x0101, wPortChange = 0x0001\<rparr>))"

subsection \<open>Notions for the device tree\<close>

text \<open>
  A device that \<open>usb_hub_to_struct_hub\<close> finds a hub structure for, with a port array
  as long as \<open>maxchild\<close>; a subtree made of such devices only; a device in state
  NOTATTACHED; the device numbers of a list of devices; and the device numbers of a
  subtree whose bit is set in the map of a bus.
\<close>

definition has_hub :: "usb_device \<Rightarrow> bool" where
  "has_hub d =
     (case usb_hub_to_struct_hub (Some d) of
        None \<Rightarrow> False
      | Some hub \<Rightarrow> maxchild (dev d) = int (length (ports hub)))"

definition hub_tree :: "usb_device \<Rightarrow> bool" where
  "hub_tree t = list_all has_hub (devices t)"

definition notattached :: "usb_device \<Rightarrow> bool" where
  "notattached d \<longleftrightarrow> state (dev d) = USB_STATE_NOTATTACHED"

definition devnums :: "usb_device list \<Rightarrow> int list" where
  "devnums ds = map (\<lambda>d. devnum (dev d)) ds"

definition held_numbers :: "usb_bus \<Rightarrow> usb_device \<Rightarrow> int list" where
  "held_numbers b t =
     filter (\<lambda>n. 0 < n \<and> n < 128 \<and> bit (devicemap b) (nat n)) (devnums (devices t))"

text \<open>Sample devices and buses.\<close>

definition leaf_struct :: usb_device_struct where
  "leaf_struct = \<lparr>state = USB_STATE_CONFIGURED, devnum = 3, portnum = 2, wusb = False,
     active_duration = 0, has_parent = True, actconfig = Some 0x80, maxchild = 0\<rparr>"

definition leaf_device :: usb_device where
  "leaf_device = Usb_device leaf_struct None"

definition hub_struct :: usb_device_struct where
  "hub_struct = \<lparr>state = USB_STATE_CONFIGURED, devnum = 2, portnum = 1, wusb = False,
     active_duration = 0, has_parent = True, actconfig = Some 0xe0, maxchild = 2\<rparr>"

definition two_port_hub :: usb_device where
  "two_port_hub =
     Usb_device hub_struct
       (Some (Usb_hub [Usb_port None (Some 7), Usb_port (Some leaf_device) None]))"

definition gone_hub :: usb_device where
  "gone_hub =
     Usb_device (hub_struct\<lparr>state := USB_STATE_NOTATTACHED\<rparr>)
       (Some (Usb_hub [Usb_port None (Some 7), Usb_port (Some leaf_device) None]))"

definition lone_hub :: usb_device where
  "lone_hub = Usb_device hub_struct (Some (Usb_hub [Usb_port None None, Usb_port None None]))"

definition inner_hub :: usb_device where
  "inner_hub =
     Usb_device (hub_struct\<lparr>devnum := 3, state := USB_STATE_SUSPENDED, maxchild := 1\<rparr>)
       (Some (Usb_hub [Usb_port None None]))"

definition outer_hub :: usb_device where
  "outer_hub =
     Usb_device hub_struct (Some (Usb_hub [Usb_port None None, Usb_port (Some inner_hub) None]))"

definition sample_bus :: usb_bus where
  "sample_bus = \<lparr>devicemap = 14, devnum_next = 4\<rparr>"

definition fresh_struct :: usb_device_struct where
  "fresh_struct = \<lparr>state = USB_STATE_POWERED, devnum = 0, portnum = 1, wusb = False,
     active_duration = 0, has_parent = True, actconfig = None, maxchild = 0\<rparr>"

definition high_bus :: usb_bus where
  "high_bus = \<lparr>devicemap = set_bit 127 (set_bit 126 (set_bit 1 0)), devnum_next = 126\<rparr>"

definition two_device_bus :: usb_bus_devices where
  "two_device_bus =
     \<lparr>the_bus = \<lparr>devicemap = 6, devnum_next = 1\<rparr>,
      udevs = (\<lambda>u. fresh_struct)
        (0 := fresh_struct\<lparr>devnum := 1\<rparr>, 1 := fresh_struct\<lparr>devnum := 2\<rparr>)\<rparr>"

definition one_device_bus :: usb_bus_devices where
  "one_device_bus =
     \<lparr>the_bus = \<lparr>devicemap = 2, devnum_next = 1\<rparr>,
      udevs = (\<lambda>u. fresh_struct)
        (0 := fresh_struct\<lparr>devnum := 1\<rparr>, 1 := fresh_struct\<lparr>devnum := - 1\<rparr>)\<rparr>"

definition idle_khubd :: khubd_state where
  "idle_khubd = \<lparr>hub_event_list = [], disconnected = (\<lambda>hub. False),
     pm_usage = (\<lambda>hub. 0), wake_ups = 0\<rparr>"


subsection \<open>Notions for address allocation\<close>

text \<open>
  \<open>first_free m a dn\<close>: \<open>dn\<close> is the first number from \<open>a\<close> on, below 128, whose
  bit is clear in the map. \<open>none_free m a\<close>: every number from \<open>a\<close> to 127 is taken.
\<close>

definition first_free :: "128 word \<Rightarrow> nat \<Rightarrow> nat \<Rightarrow> bool" where
  "first_free m a dn \<longleftrightarrow>
     a \<le> dn \<and> dn < 128 \<and> \<not> bit m dn \<and> (\<forall>j. a \<le> j \<and> j < dn \<longrightarrow> bit m j)"

definition none_free :: "128 word \<Rightarrow> nat \<Rightarrow> bool" where
  "none_free m a \<longleftrightarrow> (\<forall>j. a \<le> j \<and> j < 128 \<longrightarrow> bit m j)"

text \<open>
  The invariant of a bus and its devices: a device that holds a number (a positive
  \<open>devnum\<close>; 0 is "not yet addressed" and \<open>release_devnum\<close> leaves \<open>-1\<close>) holds one
  below 128 whose bit is set, and no two devices hold the same number. Sequences of the
  two operations stop at the first fault.
\<close>

definition devnum_inv :: "usb_bus_devices \<Rightarrow> bool" where
  "devnum_inv s \<longleftrightarrow>
     (\<forall>u. 0 < devnum (udevs s u) \<longrightarrow>
        devnum (udevs s u) < 128
        \<and> bit (devicemap (the_bus s)) (nat (devnum (udevs s u))))
     \<and> (\<forall>u v. 0 < devnum (udevs s u) \<and> devnum (udevs s u) = devnum (udevs s v) \<longrightarrow> u = v)"

datatype devnum_op = Choose nat | Release nat

fun devnum_ops :: "devnum_op list \<Rightarrow> usb_bus_devices \<Rightarrow> fault + usb_bus_devices" where
  "devnum_ops [] s = Inr s"
| "devnum_ops (Choose u # ops) s =
     (case choose_devnum_of u s of Inl f \<Rightarrow> Inl f | Inr s' \<Rightarrow> devnum_ops ops s')"
| "devnum_ops (Release u # ops) s =
     (case release_devnum_of u s of Inl f \<Rightarrow> Inl f | Inr s' \<Rightarrow> devnum_ops ops s')"


subsection \<open>Notions for the event queue\<close>

text \<open>A hub that has been disconnected and is not in the queue.\<close>

definition retired :: "khubd_state \<Rightarrow> nat \<Rightarrow> bool" where
  "retired s hub \<longleftrightarrow> disconnected s hub \<and> hub \<notin> set (hub_event_list s)"

section \<open>Properties\<close>

subsection \<open>Status queries\<close>

lemma hub_port_status_first_ok:
  assumes "4 \<le> fst (msg 0)"
  shows "hub_port_status msg b =
    (Inr (wPortStatus (snd (msg 0)), wPortChange (snd (msg 0))), snd (msg 0))"
proof -
  have "sts_retry_loop msg 0 (- ETIMEDOUT) b = sts_retry_loop msg 1 (fst (msg 0)) (snd (msg 0))"
    by (subst sts_retry_loop.simps) (simp add: USB_STS_RETRIES_def)
  also have "\<dots> = (fst (msg 0), snd (msg 0), 1)"
    using assms by (subst sts_retry_loop.simps) (simp add: errno_defs)
  finally show ?thesis using assms
    by (simp add: hub_port_status_def get_port_status_def)
qed

lemma sts_retry_loop_spec:
  assumes "sts_retry_loop msg i status data = (st, d, n)"
  shows "i \<le> n \<and> n \<le> max i USB_STS_RETRIES
       \<and> (\<forall>j. i \<le> j \<and> j + 1 < n \<longrightarrow> retryable (fst (msg j)))
       \<and> (if n = i then st = status \<and> d = data else (st, d) = msg (n - 1))
       \<and> (n < USB_STS_RETRIES \<longrightarrow> \<not> retryable st)
       \<and> (i < n \<longrightarrow> retryable status)"
  using assms
proof (induction msg i status data rule: sts_retry_loop.induct)
  case (1 msg i status data)
  show ?case
  proof (cases "i < USB_STS_RETRIES \<and> (status = - ETIMEDOUT \<or> status = - EPIPE)")
    case False
    with "1.prems" have "st = status" "d = data" "n = i"
      by (simp_all add: sts_retry_loop.simps [of msg i status data])
    with False show ?thesis by (auto simp: retryable_def)
  next
    case True
    with "1.prems" have rec: "sts_retry_loop msg (i + 1) (fst (msg i)) (snd (msg i)) = (st, d, n)"
      by (simp add: sts_retry_loop.simps [of msg i status data])
    note ih = "1.IH" [OF True rec]
    from ih have le: "i + 1 \<le> n" by simp
    have a: "\<forall>j. i \<le> j \<and> j + 1 < n \<longrightarrow> retryable (fst (msg j))"
    proof (intro allI impI)
      fix j assume j: "i \<le> j \<and> j + 1 < n"
      show "retryable (fst (msg j))"
      proof (cases "j = i")
        case True
        with j have "i + 1 < n" by simp
        with ih show ?thesis using True by simp
      next
        case False
        with j have "i + 1 \<le> j \<and> j + 1 < n" by simp
        with ih show ?thesis by blast
      qed
    qed
    have b: "(st, d) = msg (n - 1)"
    proof (cases "n = i + 1")
      case True
      with ih show ?thesis by simp
    next
      case False
      with ih show ?thesis by simp
    qed
    from True ih le a b show ?thesis
      by (auto simp: retryable_def USB_STS_RETRIES_def)
  qed
qed

text \<open>
  C4. \<open>get_port_status\<close> and \<open>get_hub_status\<close> issue between one and five GET_STATUS
  transfers; every transfer before the last one returned \<open>-ETIMEDOUT\<close> or \<open>-EPIPE\<close>;
  the status and buffer handed back are those of the last transfer issued; and when
  fewer than five transfers were issued, the last status is neither \<open>-ETIMEDOUT\<close> nor
  \<open>-EPIPE\<close> (a success or any other error ended the loop at once).
\<close>

theorem get_status_bounded_retry:
  "(get_port_status pmsg pdata = (st, d, n) \<longrightarrow>
      1 \<le> n \<and> n \<le> 5 \<and> (st, d) = pmsg (n - 1)
      \<and> (\<forall>j. j + 1 < n \<longrightarrow> fst (pmsg j) = - ETIMEDOUT \<or> fst (pmsg j) = - EPIPE)
      \<and> (n < 5 \<longrightarrow> st \<noteq> - ETIMEDOUT \<and> st \<noteq> - EPIPE))
   \<and> (get_hub_status hmsg hdata = (st', d', n') \<longrightarrow>
      1 \<le> n' \<and> n' \<le> 5 \<and> (st', d') = hmsg (n' - 1)
      \<and> (\<forall>j. j + 1 < n' \<longrightarrow> fst (hmsg j) = - ETIMEDOUT \<or> fst (hmsg j) = - EPIPE)
      \<and> (n' < 5 \<longrightarrow> st' \<noteq> - ETIMEDOUT \<and> st' \<noteq> - EPIPE))"
proof (intro conjI impI)
  assume p: "get_port_status pmsg pdata = (st, d, n)"
  have first: "sts_retry_loop pmsg 0 (- ETIMEDOUT) pdata
      = sts_retry_loop pmsg 1 (fst (pmsg 0)) (snd (pmsg 0))"
    by (subst sts_retry_loop.simps) (simp add: USB_STS_RETRIES_def)
  from p have "sts_retry_loop pmsg 1 (fst (pmsg 0)) (snd (pmsg 0)) = (st, d, n)"
    by (simp add: get_port_status_def first)
  note s = sts_retry_loop_spec [OF this]
  from s show "1 \<le> n" by simp
  from s show "n \<le> 5" by (simp add: USB_STS_RETRIES_def)
  from s show "(st, d) = pmsg (n - 1)" by (cases "n = 1") auto
  from s show "\<forall>j. j + 1 < n \<longrightarrow> fst (pmsg j) = - ETIMEDOUT \<or> fst (pmsg j) = - EPIPE"
    unfolding retryable_def
    by (metis One_nat_def Suc_leI add.commute less_add_same_cancel2 not_gr_zero
        plus_1_eq_Suc zero_less_Suc zero_less_diff add_diff_cancel_left' less_one)
  from s show "st \<noteq> - ETIMEDOUT" if "n < 5" using that
    by (simp add: retryable_def USB_STS_RETRIES_def)
  from s show "st \<noteq> - EPIPE" if "n < 5" using that
    by (simp add: retryable_def USB_STS_RETRIES_def)
next
  assume h: "get_hub_status hmsg hdata = (st', d', n')"
  have first: "sts_retry_loop hmsg 0 (- ETIMEDOUT) hdata
      = sts_retry_loop hmsg 1 (fst (hmsg 0)) (snd (hmsg 0))"
    by (subst sts_retry_loop.simps) (simp add: USB_STS_RETRIES_def)
  from h have "sts_retry_loop hmsg 1 (fst (hmsg 0)) (snd (hmsg 0)) = (st', d', n')"
    by (simp add: get_hub_status_def first)
  note s = sts_retry_loop_spec [OF this]
  from s show "1 \<le> n'" by simp
  from s show "n' \<le> 5" by (simp add: USB_STS_RETRIES_def)
  from s show "(st', d') = hmsg (n' - 1)" by (cases "n' = 1") auto
  from s show "\<forall>j. j + 1 < n' \<longrightarrow> fst (hmsg j) = - ETIMEDOUT \<or> fst (hmsg j) = - EPIPE"
    unfolding retryable_def
    by (metis One_nat_def Suc_leI add.commute less_add_same_cancel2 not_gr_zero
        plus_1_eq_Suc zero_less_Suc zero_less_diff add_diff_cancel_left' less_one)
  from s show "st' \<noteq> - ETIMEDOUT" if "n' < 5" using that
    by (simp add: retryable_def USB_STS_RETRIES_def)
  from s show "st' \<noteq> - EPIPE" if "n' < 5" using that
    by (simp add: retryable_def USB_STS_RETRIES_def)
qed

theorem get_status_bounded_retry_witness:
  "get_port_status retry_twice_msg \<lparr>wPortStatus = 0, wPortChange = 0\<rparr>
     = (4, \<lparr>wPortStatus = 0x0101, wPortChange = 0x0001\<rparr>, 3)
   \<and> get_hub_status (\<lambda>i. (- ENODEV, \<lparr>wHubStatus = 0, wHubChange = 0\<rparr>))
        \<lparr>wHubStatus = 0, wHubChange = 0\<rparr>
     = (- ENODEV, \<lparr>wHubStatus = 0, wHubChange = 0\<rparr>, 1)
   \<and> (4, \<lparr>wPortStatus = 0x0101, wPortChange = 0x0001\<rparr>) = retry_twice_msg (3 - 1)
   \<and> fst (retry_twice_msg 0) = - ETIMEDOUT \<and> fst (retry_twice_msg 1) = - ETIMEDOUT
   \<and> - ENODEV \<noteq> - ETIMEDOUT \<and> - ENODEV \<noteq> - EPIPE"
proof -
  have p: "get_port_status retry_twice_msg \<lparr>wPortStatus = 0, wPortChange = 0\<rparr>
     = (4, \<lparr>wPortStatus = 0x0101, wPortChange = 0x0001\<rparr>, 3)"
    by (simp add: get_port_status_def sts_retry_loop.simps retry_twice_msg_def
        USB_STS_RETRIES_def errno_defs)
  have h: "get_hub_status (\<lambda>i. (- ENODEV, \<lparr>wHubStatus = 0, wHubChange = 0\<rparr>))
        \<lparr>wHubStatus = 0, wHubChange = 0\<rparr>
     = (- ENODEV, \<lparr>wHubStatus = 0, wHubChange = 0\<rparr>, 1)"
    by (simp add: get_hub_status_def sts_retry_loop.simps USB_STS_RETRIES_def errno_defs)
  from p h get_status_bounded_retry
    [of retry_twice_msg "\<lparr>wPortStatus = 0, wPortChange = 0\<rparr>" 4
        "\<lparr>wPortStatus = 0x0101, wPortChange = 0x0001\<rparr>" 3
        "\<lambda>i. (- ENODEV, \<lparr>wHubStatus = 0, wHubChange = 0\<rparr>)"
        "\<lparr>wHubStatus = 0, wHubChange = 0\<rparr>" "- ENODEV"
        "\<lparr>wHubStatus = 0, wHubChange = 0\<rparr>" 1]
  show ?thesis by (simp add: retry_twice_msg_def errno_defs)
qed

subsection \<open>Debounce\<close>

lemma debounce_body_changed:
  assumes "connection s \<noteq> ucast (ps AND USB_PORT_STAT_CONNECTION)"
  shows "fst (debounce_body mbc ps pc s) = (total_time s \<ge> HUB_DEBOUNCE_TIMEOUT)"
    and "stable_time (snd (debounce_body mbc ps pc s)) = 0"
    and "connection (snd (debounce_body mbc ps pc s)) = ucast (ps AND USB_PORT_STAT_CONNECTION)"
    and "polls (snd (debounce_body mbc ps pc s)) = polls s"
    and "total_time (snd (debounce_body mbc ps pc s)) = total_time s"
    and "slept (snd (debounce_body mbc ps pc s)) = slept s"
  using assms by (auto simp: debounce_body_def Let_def)

text \<open>
  The stable time goes back to zero whenever the connection-change bit is set or the
  connection bit differs from the one seen before.
\<close>

lemma debounce_body_resets:
  assumes "pc AND USB_PORT_STAT_C_CONNECTION \<noteq> 0
      \<or> connection s \<noteq> ucast (ps AND USB_PORT_STAT_CONNECTION)"
  shows "stable_time (snd (debounce_body mbc ps pc s)) = 0"
  using assms by (auto simp: debounce_body_def Let_def)

lemma debounce_loop_unfold:
  assumes "4 \<le> fst (wire (polls s) 0)"
  shows "hub_port_debounce_loop wire mbc s =
     (let b = debounce_body mbc (wPortStatus (snd (wire (polls s) 0)))
                (wPortChange (snd (wire (polls s) 0)))
                (s\<lparr>status_buf := snd (wire (polls s) 0), polls := polls s + 1\<rparr>)
      in if fst b then (debounce_result (snd b), snd b)
         else hub_port_debounce_loop wire mbc
                ((snd b)\<lparr>slept := slept (snd b) + HUB_DEBOUNCE_STEP,
                         total_time := total_time (snd b) + HUB_DEBOUNCE_STEP\<rparr>))"
  by (subst hub_port_debounce_loop.simps)
     (simp add: hub_port_status_first_ok [of "wire (polls s)", OF assms] Let_def)

lemma debounce_loop_toggling:
  assumes ok: "\<And>k. 4 \<le> fst (wire k 0)"
    and tog: "\<And>k. connection_bit (snd (wire k 0)) \<noteq> connection_bit (snd (wire (Suc k) 0))"
  shows "polls s = k \<Longrightarrow> total_time s = 25 * int k \<Longrightarrow> k + n = 80 \<Longrightarrow> stable_time s = 0 \<Longrightarrow>
     connection s \<noteq> connection_bit (snd (wire k 0)) \<Longrightarrow>
     (\<exists>s'. hub_port_debounce_loop wire mbc s = (- ETIMEDOUT, s') \<and> total_time s' = 2000
        \<and> polls s' = 81 \<and> stable_time s' = 0 \<and> slept s' = slept s + 25 * int n)"
proof (induction n arbitrary: s k)
  case 0
  let ?s' = "s\<lparr>status_buf := snd (wire (polls s) 0), polls := polls s + 1\<rparr>"
  let ?b = "debounce_body mbc (wPortStatus (snd (wire (polls s) 0)))
                (wPortChange (snd (wire (polls s) 0))) ?s'"
  have c: "connection ?s' \<noteq> ucast (wPortStatus (snd (wire (polls s) 0)) AND USB_PORT_STAT_CONNECTION)"
    using 0 by (simp add: connection_bit_def)
  note bf = debounce_body_changed [OF c, of mbc "wPortChange (snd (wire (polls s) 0))"]
  have "hub_port_debounce_loop wire mbc s = (debounce_result (snd ?b), snd ?b)"
    using bf(1) 0 by (subst debounce_loop_unfold [of wire s, OF ok])
      (simp add: Let_def HUB_DEBOUNCE_TIMEOUT_def)
  moreover have "debounce_result (snd ?b) = - ETIMEDOUT"
    using bf(2) by (simp add: debounce_result_def HUB_DEBOUNCE_STABLE_def)
  ultimately show ?case using bf 0 by simp
next
  case (Suc n)
  let ?s' = "s\<lparr>status_buf := snd (wire (polls s) 0), polls := polls s + 1\<rparr>"
  let ?b = "debounce_body mbc (wPortStatus (snd (wire (polls s) 0)))
                (wPortChange (snd (wire (polls s) 0))) ?s'"
  let ?s2 = "(snd ?b)\<lparr>slept := slept (snd ?b) + HUB_DEBOUNCE_STEP,
                      total_time := total_time (snd ?b) + HUB_DEBOUNCE_STEP\<rparr>"
  have c: "connection ?s' \<noteq> ucast (wPortStatus (snd (wire (polls s) 0)) AND USB_PORT_STAT_CONNECTION)"
    using Suc.prems by (simp add: connection_bit_def)
  note bf = debounce_body_changed [OF c, of mbc "wPortChange (snd (wire (polls s) 0))"]
  have step: "hub_port_debounce_loop wire mbc s = hub_port_debounce_loop wire mbc ?s2"
    using bf(1) Suc.prems by (subst debounce_loop_unfold [of wire s, OF ok])
      (simp add: Let_def HUB_DEBOUNCE_TIMEOUT_def)
  have "\<exists>s'. hub_port_debounce_loop wire mbc ?s2 = (- ETIMEDOUT, s') \<and> total_time s' = 2000
        \<and> polls s' = 81 \<and> stable_time s' = 0 \<and> slept s' = slept ?s2 + 25 * int n"
  proof (rule Suc.IH [of ?s2 "Suc k"])
    show "polls ?s2 = Suc k" using bf(4) Suc.prems by simp
    show "total_time ?s2 = 25 * int (Suc k)"
      using bf(5) Suc.prems by (simp add: HUB_DEBOUNCE_STEP_def)
    show "Suc k + n = 80" using Suc.prems by simp
    show "stable_time ?s2 = 0" using bf(2) by simp
    show "connection ?s2 \<noteq> connection_bit (snd (wire (Suc k) 0))"
      using bf(3) tog [of k] Suc.prems(1) by (simp add: connection_bit_def)
  qed
  then show ?case using step bf(6) by (auto simp: HUB_DEBOUNCE_STEP_def)
qed

lemma debounce_toggling_times_out:
  assumes ok: "\<And>k. 4 \<le> fst (wire k 0)"
    and tog: "\<And>k. connection_bit (snd (wire k 0)) \<noteq> connection_bit (snd (wire (Suc k) 0))"
  shows "\<exists>s'. hub_port_debounce wire buf mbc = (- ETIMEDOUT, s') \<and> total_time s' = 2000
        \<and> polls s' = 81 \<and> stable_time s' = 0 \<and> slept s' = 2000"
proof -
  let ?s0 = "\<lparr>total_time = 0, stable_time = 0, connection = 0xffff, portstatus = 0,
        status_buf = buf, polls = 0, cleared = 0, slept = 0\<rparr>"
  have "\<not> bit (connection_bit (snd (wire 0 0))) (Suc 0)"
    by (simp add: connection_bit_def USB_PORT_STAT_CONNECTION_def bit_simps)
  moreover have "bit (0xffff :: 32 word) (Suc 0)" by simp
  ultimately have "connection ?s0 \<noteq> connection_bit (snd (wire 0 0))"
    by auto
  then have "\<exists>s'. hub_port_debounce_loop wire mbc ?s0 = (- ETIMEDOUT, s') \<and> total_time s' = 2000
        \<and> polls s' = 81 \<and> stable_time s' = 0 \<and> slept s' = slept ?s0 + 25 * int 80"
    by (intro debounce_loop_toggling [where wire = wire and k = 0] ok tog) simp_all
  then show ?thesis by (simp add: hub_port_debounce_def)
qed


text \<open>
  C1. The port of \<open>toggling_wire\<close> changes its connection bit at every sample. The
  debounce loop samples it 81 times, 25 ms apart, never counts any stable time, and gives
  up with \<open>-ETIMEDOUT\<close> when \<open>total_time\<close> has reached 2000 ms
  (\<open>HUB_DEBOUNCE_TIMEOUT\<close>), not at 1500 ms.
\<close>

theorem hub_port_debounce_toggling_gives_up_at_2000:
  "fst (hub_port_debounce toggling_wire \<lparr>wPortStatus = 0, wPortChange = 0\<rparr> False)
     = - ETIMEDOUT
   \<and> total_time (snd (hub_port_debounce toggling_wire
        \<lparr>wPortStatus = 0, wPortChange = 0\<rparr> False)) = 2000
   \<and> stable_time (snd (hub_port_debounce toggling_wire
        \<lparr>wPortStatus = 0, wPortChange = 0\<rparr> False)) = 0
   \<and> polls (snd (hub_port_debounce toggling_wire
        \<lparr>wPortStatus = 0, wPortChange = 0\<rparr> False)) = 81
   \<and> slept (snd (hub_port_debounce toggling_wire
        \<lparr>wPortStatus = 0, wPortChange = 0\<rparr> False)) = 2000"
proof -
  have ok: "\<And>k. 4 \<le> fst (toggling_wire k 0)"
    by (simp add: toggling_wire_def)
  have tog: "\<And>k. connection_bit (snd (toggling_wire k 0))
      \<noteq> connection_bit (snd (toggling_wire (Suc k) 0))"
    by (simp add: toggling_wire_def connection_bit_def USB_PORT_STAT_CONNECTION_def)
  from debounce_toggling_times_out [of toggling_wire, OF ok tog]
  obtain s' where "hub_port_debounce toggling_wire \<lparr>wPortStatus = 0, wPortChange = 0\<rparr> False
      = (- ETIMEDOUT, s')" "total_time s' = 2000" "polls s' = 81" "stable_time s' = 0"
      "slept s' = 2000"
    by blast
  then show ?thesis by simp
qed

subsection \<open>Waiting for a port reset\<close>

















subsection \<open>System Exit Latency\<close>

lemma count_hubs_ancestors: "count_hubs p n = n + of_nat (ancestors p)"
  by (induction p n rule: count_hubs.induct) simp_all

lemma sel_word:
  assumes "parent udev = Some p"
  shows "usb_set_lpm_sel udev params =
     Inr (params\<lparr>sel := (if (of_nat (ancestors p) :: 32 word) = 0 then pel params
            else pel params + 2100 + 250 * (of_nat (ancestors p) - 1)
                 + 250 * of_nat (ancestors p))\<rparr>)"
  using assms
  by (simp add: usb_set_lpm_sel_def count_hubs_ancestors Let_def word_greater_zero_iff)

lemma sel_nat:
  assumes "unat (p :: 32 word) + 2100 + 500 * n < 2 ^ 32"
  shows "unat (if (of_nat n :: 32 word) = 0 then p
            else p + 2100 + 250 * (of_nat n - 1) + 250 * of_nat n)
     = system_exit_latency (unat p) n"
proof (cases n)
  case 0
  then show ?thesis by (simp add: system_exit_latency_def)
next
  case (Suc m)
  with assms have b: "unat p + 2100 + 500 * m + 500 < 2 ^ 32" by simp
  then have m: "m < 2 ^ 32" by simp
  have "unat (of_nat (Suc m) :: 32 word) = Suc m"
    by (rule of_nat_inverse [OF refl]) (use b in simp)
  then have nz: "(of_nat (Suc m) :: 32 word) \<noteq> 0"
    by (metis Zero_not_Suc unat_0)
  have "p + 2100 + 250 * (of_nat (Suc m) - 1) + 250 * of_nat (Suc m)
      = (of_nat (unat p + 2100 + 250 * m + 250 * Suc m) :: 32 word)"
    by simp
  also have "unat \<dots> = unat p + 2100 + 250 * m + 250 * Suc m"
    by (rule of_nat_inverse [OF refl]) (use b in simp)
  finally show ?thesis using nz Suc by (simp add: system_exit_latency_def)
qed

text \<open>
  C3. For a device whose parent \<open>p\<close> exists, \<open>usb_set_lpm_sel\<close> stores
  \<open>SEL = PEL\<close> when no external hub lies between the device and the root port, and
  \<open>SEL = PEL + 2100 + 250 * (numHubs - 1) + 250 * numHubs\<close> otherwise, where
  \<open>numHubs\<close> is the number of devices above \<open>p\<close>. The C arithmetic is
  \<open>unsigned int\<close>: the equation holds modulo \<open>2^32\<close>, and as an equation between
  numbers of nanoseconds whenever the sum fits 32 bits.
\<close>

theorem usb_set_lpm_sel_formula:
  "parent udev = Some p \<longrightarrow>
     usb_set_lpm_sel udev params =
       Inr (params\<lparr>sel := (if (of_nat (ancestors p) :: 32 word) = 0 then pel params
              else pel params + 2100 + 250 * (of_nat (ancestors p) - 1)
                   + 250 * of_nat (ancestors p))\<rparr>)
     \<and> (unat (pel params) + 2100 + 500 * ancestors p < 2 ^ 32 \<longrightarrow>
          (\<exists>r. usb_set_lpm_sel udev params = Inr r
             \<and> unat (sel r) = system_exit_latency (unat (pel params)) (ancestors p)
             \<and> pel r = pel params \<and> mel r = mel params \<and> timeout r = timeout params))"
proof (intro impI conjI)
  assume par: "parent udev = Some p"
  then show w: "usb_set_lpm_sel udev params =
       Inr (params\<lparr>sel := (if (of_nat (ancestors p) :: 32 word) = 0 then pel params
              else pel params + 2100 + 250 * (of_nat (ancestors p) - 1)
                   + 250 * of_nat (ancestors p))\<rparr>)"
    by (rule sel_word)
  assume "unat (pel params) + 2100 + 500 * ancestors p < 2 ^ 32"
  then have "unat (if (of_nat (ancestors p) :: 32 word) = 0 then pel params
              else pel params + 2100 + 250 * (of_nat (ancestors p) - 1)
                   + 250 * of_nat (ancestors p))
      = system_exit_latency (unat (pel params)) (ancestors p)"
    by (rule sel_nat)
  with w show "\<exists>r. usb_set_lpm_sel udev params = Inr r
             \<and> unat (sel r) = system_exit_latency (unat (pel params)) (ancestors p)
             \<and> pel r = pel params \<and> mel r = mel params \<and> timeout r = timeout params"
    by simp
qed

theorem usb_set_lpm_sel_formula_witness:
  "parent (Usb_device_path (Some two_hubs_below_root)) = Some two_hubs_below_root
   \<and> ancestors two_hubs_below_root = 2
   \<and> unat (50000 :: 32 word) + 2100 + 500 * ancestors two_hubs_below_root < 2 ^ 32
   \<and> usb_set_lpm_sel (Usb_device_path (Some two_hubs_below_root))
        \<lparr>mel = 0, pel = 50000, sel = 0, timeout = 0\<rparr>
      = Inr \<lparr>mel = 0, pel = 50000, sel = 52850, timeout = 0\<rparr>
   \<and> system_exit_latency 50000 2 = 52850"
  using usb_set_lpm_sel_formula [of "Usb_device_path (Some two_hubs_below_root)"
      two_hubs_below_root "\<lparr>mel = 0, pel = 50000, sel = 0, timeout = 0\<rparr>"]
  by (simp add: two_hubs_below_root_def system_exit_latency_def)

subsection \<open>Marking a subtree NOTATTACHED\<close>

lemma has_hub_intfdata:
  "has_hub d \<Longrightarrow> \<exists>hub. usb_hub_to_struct_hub (Some d) = Some hub \<and> intfdata d = Some hub
     \<and> nat (maxchild (dev d)) = length (ports hub)"
  by (auto simp: has_hub_def usb_hub_to_struct_hub_def split: option.splits if_splits)

lemma mark_all:
  "list_all has_hub (devices udev) \<Longrightarrow>
     (\<exists>t'. recursively_mark_NOTATTACHED j udev = Inr t'
        \<and> list_all notattached (devices t')
        \<and> devnums (devices t') = devnums (devices udev)
        \<and> length (devices t') = length (devices udev))"
  and "list_all has_hub (port_devices ps) \<Longrightarrow> n = length ps \<Longrightarrow>
     (\<exists>ps'. mark_children j n ps = Inr ps'
        \<and> list_all notattached (port_devices ps')
        \<and> devnums (port_devices ps') = devnums (port_devices ps)
        \<and> length (port_devices ps') = length (port_devices ps))"
proof (induction j udev and j n ps rule: recursively_mark_NOTATTACHED_mark_children.induct)
  case (1 jiffies udev)
  from "1.prems" have hh: "has_hub udev" by simp
  then obtain hub where hub: "usb_hub_to_struct_hub (Some udev) = Some hub"
    "intfdata udev = Some hub" "nat (maxchild (dev udev)) = length (ports hub)"
    using has_hub_intfdata by blast
  from "1.prems" hub have below: "list_all has_hub (port_devices (ports hub))" by simp
  from "1.IH" [OF hub(1) below hub(3)]
  obtain ps' where ps': "mark_children jiffies (nat (maxchild (dev udev))) (ports hub) = Inr ps'"
    "list_all notattached (port_devices ps')"
    "devnums (port_devices ps') = devnums (port_devices (ports hub))"
    "length (port_devices ps') = length (port_devices (ports hub))"
    by blast
  let ?t' = "Usb_device
                 ((dev udev)\<lparr>active_duration :=
                     (if state (dev udev) = USB_STATE_SUSPENDED
                      then active_duration (dev udev) - jiffies
                      else active_duration (dev udev)),
                   state := USB_STATE_NOTATTACHED\<rparr>)
                 (Some (Usb_hub ps'))"
  have r: "recursively_mark_NOTATTACHED jiffies udev = Inr ?t'"
    using hub(1) ps'(1) by simp
  have top: "notattached ?t'" by (simp add: notattached_def)
  have d': "devices ?t' = ?t' # port_devices ps'" by simp
  have d: "devices udev = udev # port_devices (ports hub)"
    using hub(2) by simp
  have "list_all notattached (devices ?t')"
    unfolding d' using top ps'(2) by simp
  moreover have "devnums (devices ?t') = devnums (devices udev)"
    unfolding d d' using ps'(3) by (simp add: devnums_def)
  moreover have "length (devices ?t') = length (devices udev)"
    unfolding d d' using ps'(4) by simp
  ultimately show ?case using r by blast
next
  case (2 jiffies ps)
  then show ?case by simp
next
  case (3 jiffies n)
  then show ?case by simp
next
  case (4 jiffies n p ps)
  from "4.prems" have n: "n = length ps" by simp
  show ?case
  proof (cases "child p")
    case None
    with "4.prems" have "list_all has_hub (port_devices ps)" by simp
    from "4.IH"(1) [OF None this n] None show ?thesis
      by (auto simp: devnums_def)
  next
    case (Some c)
    with "4.prems" have hc: "list_all has_hub (devices c)"
      and hps: "list_all has_hub (port_devices ps)" by simp_all
    from "4.IH"(2) [OF Some hc]
    obtain c' where c': "recursively_mark_NOTATTACHED jiffies c = Inr c'"
      "list_all notattached (devices c')" "devnums (devices c') = devnums (devices c)"
      "length (devices c') = length (devices c)"
      by blast
    from "4.IH"(3) [OF Some c'(1) hps n]
    obtain ps' where ps': "mark_children jiffies n ps = Inr ps'"
      "list_all notattached (port_devices ps')"
      "devnums (port_devices ps') = devnums (port_devices ps)"
      "length (port_devices ps') = length (port_devices ps)"
      by blast
    from Some c' ps' show ?thesis
      by (simp add: devnums_def del: devices.simps)
  qed
qed

text \<open>
  A device for which \<open>usb_hub_to_struct_hub\<close> finds no hub structure (any device
  that is not a hub, \<open>maxchild = 0\<close>) comes back from
  \<open>recursively_mark_NOTATTACHED\<close> as it went in: the function returns before it
  reaches the assignment of the state. \<open>leaf_device\<close> stays CONFIGURED.
\<close>

lemma recursively_mark_NOTATTACHED_without_hub:
  "usb_hub_to_struct_hub (Some udev) = None \<Longrightarrow>
     recursively_mark_NOTATTACHED jiffies udev = Inr udev"
  by simp

lemma set_state_NOTATTACHED_leaf_device:
  "usb_set_device_state jiffies leaf_device USB_STATE_NOTATTACHED = Inr (leaf_device, - 1)
   \<and> state (dev leaf_device) = USB_STATE_CONFIGURED"
  by (simp add: usb_set_device_state_def usb_hub_to_struct_hub_def leaf_device_def
      leaf_struct_def)

text \<open>
  C2 (as amended). For a device that is not yet NOTATTACHED and whose subtree consists of
  devices with a hub structure, \<open>usb_set_device_state\<close> with NOTATTACHED leaves the
  device and all its N descendants, N + 1 devices, in state NOTATTACHED. It changes no
  device number, and the device-number map of the bus is not among the things it
  touches, so the subtree holds the same bits afterwards. The bits are given back later,
  one device at a time, by \<open>release_devnum\<close>, which clears the bit of a device number
  and sets \<open>devnum\<close> to \<open>-1\<close>.
\<close>

theorem set_state_NOTATTACHED_hub_tree:
  "(hub_tree udev \<and> \<not> notattached udev \<longrightarrow>
      (\<exists>udev'. usb_set_device_state jiffies udev USB_STATE_NOTATTACHED = Inr (udev', - 1)
         \<and> list_all notattached (devices udev')
         \<and> length (filter notattached (devices udev')) = length (devices udev)
         \<and> devnums (devices udev') = devnums (devices udev)
         \<and> held_numbers bus udev' = held_numbers bus udev))
   \<and> (0 < devnum d \<and> devnum d < 128 \<longrightarrow>
        (\<exists>bus' d'. release_devnum bus d = Inr (bus', d') \<and> devnum d' = - 1
           \<and> devicemap bus' = unset_bit (nat (devnum d)) (devicemap bus)
           \<and> \<not> bit (devicemap bus') (nat (devnum d))))"
proof (intro conjI impI)
  assume h: "hub_tree udev \<and> \<not> notattached udev"
  then have "list_all has_hub (devices udev)" by (simp add: hub_tree_def)
  from mark_all(1) [OF this, of jiffies]
  obtain t' where t': "recursively_mark_NOTATTACHED jiffies udev = Inr t'"
    "list_all notattached (devices t')" "devnums (devices t') = devnums (devices udev)"
    "length (devices t') = length (devices udev)"
    by blast
  from h t'(1) have "usb_set_device_state jiffies udev USB_STATE_NOTATTACHED = Inr (t', - 1)"
    by (simp add: usb_set_device_state_def notattached_def)
  moreover from t'(2) have "filter notattached (devices t') = devices t'"
    by (simp add: list_all_iff)
  ultimately show "\<exists>udev'. usb_set_device_state jiffies udev USB_STATE_NOTATTACHED
         = Inr (udev', - 1)
         \<and> list_all notattached (devices udev')
         \<and> length (filter notattached (devices udev')) = length (devices udev)
         \<and> devnums (devices udev') = devnums (devices udev)
         \<and> held_numbers bus udev' = held_numbers bus udev"
    using t' by (simp add: held_numbers_def)
next
  assume "0 < devnum d \<and> devnum d < 128"
  then show "\<exists>bus' d'. release_devnum bus d = Inr (bus', d') \<and> devnum d' = - 1
           \<and> devicemap bus' = unset_bit (nat (devnum d)) (devicemap bus)
           \<and> \<not> bit (devicemap bus') (nat (devnum d))"
    by (simp add: release_devnum_def bit_unset_bit_iff)
qed

theorem set_state_NOTATTACHED_hub_tree_counterexample:
  "usb_set_device_state 0 lone_hub USB_STATE_NOTATTACHED
     = Inr (Usb_device (hub_struct\<lparr>state := USB_STATE_NOTATTACHED\<rparr>)
              (Some (Usb_hub [Usb_port None None, Usb_port None None])), - 1)
   \<and> devnums (devices (Usb_device (hub_struct\<lparr>state := USB_STATE_NOTATTACHED\<rparr>)
              (Some (Usb_hub [Usb_port None None, Usb_port None None])))) = [2]
   \<and> bit (devicemap sample_bus) 2
   \<and> held_numbers sample_bus
        (Usb_device (hub_struct\<lparr>state := USB_STATE_NOTATTACHED\<rparr>)
              (Some (Usb_hub [Usb_port None None, Usb_port None None]))) = [2]"
proof -
  have "usb_set_device_state 0 lone_hub USB_STATE_NOTATTACHED
     = Inr (Usb_device (hub_struct\<lparr>state := USB_STATE_NOTATTACHED\<rparr>)
              (Some (Usb_hub [Usb_port None None, Usb_port None None])), - 1)"
    by (simp add: usb_set_device_state_def usb_hub_to_struct_hub_def lone_hub_def
        hub_struct_def numeral_2_eq_2)
  moreover have "devnums (devices (Usb_device (hub_struct\<lparr>state := USB_STATE_NOTATTACHED\<rparr>)
              (Some (Usb_hub [Usb_port None None, Usb_port None None])))) = [2]"
    by (simp add: devnums_def hub_struct_def)
  moreover have "bit (devicemap sample_bus) 2"
    by (simp add: sample_bus_def)
  ultimately show ?thesis
    by (simp add: held_numbers_def sample_bus_def)
qed

theorem set_state_NOTATTACHED_hub_tree_witness:
  "hub_tree outer_hub \<and> \<not> notattached outer_hub \<and> length (devices outer_hub) = 2
   \<and> (\<exists>udev'. usb_set_device_state 1000 outer_hub USB_STATE_NOTATTACHED = Inr (udev', - 1)
         \<and> length (filter notattached (devices udev')) = 2
         \<and> devnums (devices udev') = [2, 3]
         \<and> held_numbers sample_bus udev' = [2, 3])
   \<and> release_devnum sample_bus hub_struct
       = Inr (\<lparr>devicemap = 10, devnum_next = 4\<rparr>, hub_struct\<lparr>devnum := - 1\<rparr>)"
proof -
  have a: "hub_tree outer_hub \<and> \<not> notattached outer_hub \<and> length (devices outer_hub) = 2"
    by (simp add: hub_tree_def has_hub_def usb_hub_to_struct_hub_def notattached_def
        outer_hub_def inner_hub_def hub_struct_def)
  have b: "devnums (devices outer_hub) = [2, 3]"
    by (simp add: devnums_def outer_hub_def inner_hub_def hub_struct_def)
  have c: "held_numbers sample_bus outer_hub = [2, 3]"
    unfolding held_numbers_def b by (simp add: sample_bus_def)
  have d: "0 < devnum hub_struct \<and> devnum hub_struct < 128"
    by (simp add: hub_struct_def)
  have e: "release_devnum sample_bus hub_struct
       = Inr (\<lparr>devicemap = 10, devnum_next = 4\<rparr>, hub_struct\<lparr>devnum := - 1\<rparr>)"
    by (simp add: release_devnum_def sample_bus_def hub_struct_def)
  from set_state_NOTATTACHED_hub_tree [of outer_hub 1000 sample_bus hub_struct] a b c d e
  show ?thesis by auto
qed

subsection \<open>Address allocation\<close>

lemma find_next_zero_bit_spec:
  "offset \<le> sz \<Longrightarrow>
     offset \<le> find_next_zero_bit m sz offset \<and> find_next_zero_bit m sz offset \<le> sz
     \<and> (\<forall>j. offset \<le> j \<and> j < find_next_zero_bit m sz offset \<longrightarrow> bit m j)
     \<and> (find_next_zero_bit m sz offset < sz \<longrightarrow> \<not> bit m (find_next_zero_bit m sz offset))"
proof (induction m sz offset rule: find_next_zero_bit.induct)
  case (1 addr sz offset)
  show ?case
  proof (cases "offset \<ge> sz")
    case True
    then have "find_next_zero_bit addr sz offset = sz"
      by (simp add: find_next_zero_bit.simps [of addr sz offset])
    with True "1.prems" show ?thesis by auto
  next
    case False
    note lt = this
    show ?thesis
    proof (cases "bit addr offset")
      case False
      with lt have "find_next_zero_bit addr sz offset = offset"
        by (simp add: find_next_zero_bit.simps [of addr sz offset])
      with lt False show ?thesis by auto
    next
      case True
      with lt have eq: "find_next_zero_bit addr sz offset = find_next_zero_bit addr sz (offset + 1)"
        by (simp add: find_next_zero_bit.simps [of addr sz offset])
      from lt True have ih: "offset + 1 \<le> find_next_zero_bit addr sz (offset + 1)
         \<and> find_next_zero_bit addr sz (offset + 1) \<le> sz
         \<and> (\<forall>j. offset + 1 \<le> j \<and> j < find_next_zero_bit addr sz (offset + 1) \<longrightarrow> bit addr j)
         \<and> (find_next_zero_bit addr sz (offset + 1) < sz
              \<longrightarrow> \<not> bit addr (find_next_zero_bit addr sz (offset + 1)))"
        by (intro "1.IH") simp_all
      have "\<forall>j. offset \<le> j \<and> j < find_next_zero_bit addr sz (offset + 1) \<longrightarrow> bit addr j"
      proof (intro allI impI)
        fix j assume j: "offset \<le> j \<and> j < find_next_zero_bit addr sz (offset + 1)"
        show "bit addr j"
        proof (cases "j = offset")
          case True
          with \<open>bit addr offset\<close> show ?thesis by simp
        next
          case False
          with j have "offset + 1 \<le> j" by simp
          with j ih show ?thesis by blast
        qed
      qed
      with ih show ?thesis unfolding eq by simp
    qed
  qed
qed

lemma find_next_zero_bit_beyond:
  "sz \<le> offset \<Longrightarrow> find_next_zero_bit m sz offset = sz"
  by (simp add: find_next_zero_bit.simps [of m sz offset])

lemma find_next_zero_bit_first_free:
  assumes "a \<le> 128"
  shows "if find_next_zero_bit m 128 a < 128 then first_free m a (find_next_zero_bit m 128 a)
         else find_next_zero_bit m 128 a = 128 \<and> none_free m a"
  using find_next_zero_bit_spec [OF assms, of m]
  by (auto simp: first_free_def none_free_def)

lemma first_free_unique: "first_free m a x \<Longrightarrow> first_free m a y \<Longrightarrow> x = y"
  unfolding first_free_def by (metis linorder_neqE_nat)

lemma first_free_not_none: "first_free m a x \<Longrightarrow> \<not> none_free m a"
  unfolding first_free_def none_free_def by blast

lemma none_free_mono: "none_free m a \<Longrightarrow> a \<le> b \<Longrightarrow> none_free m b"
  unfolding none_free_def by auto

lemma choose_devnum_nonwusb:
  assumes "\<not> wusb udev" "0 \<le> devnum_next bus" "devnum_next bus < 2 ^ 64"
  shows "choose_devnum bus udev =
     (let d0 = find_next_zero_bit (devicemap bus) 128 (nat (devnum_next bus));
          dn = (if d0 \<ge> 128 then find_next_zero_bit (devicemap bus) 128 1 else d0)
      in Inr (assign_devnum (bus\<lparr>devnum_next := (if dn \<ge> 127 then 1 else int dn + 1)\<rparr>)
                udev (int dn)))"
proof -
  have "unat (word_of_int (devnum_next bus) :: 64 word) = nat (devnum_next bus)"
    using assms by (simp add: unsigned_of_int take_bit_int_eq_self)
  with assms(1) show ?thesis
    by (simp add: choose_devnum_def Let_def)
qed

lemma assign_devnum_found:
  "dn < 128 \<Longrightarrow> assign_devnum b udev (int dn) =
     (b\<lparr>devicemap := set_bit dn (devicemap b)\<rparr>, udev\<lparr>devnum := int dn\<rparr>)"
  by (simp add: assign_devnum_def)

lemma assign_devnum_full: "assign_devnum b udev 128 = (b, udev)"
  by (simp add: assign_devnum_def)

lemma choose_devnum_scan_aux:
  "\<not> wusb udev \<and> 1 \<le> devnum_next bus \<and> devnum_next bus \<le> 127 \<longrightarrow>
     (\<exists>bus' udev'. choose_devnum bus udev = Inr (bus', udev')
        \<and> 1 \<le> devnum_next bus' \<and> devnum_next bus' \<le> 127
        \<and> bit (devicemap bus') 0 = bit (devicemap bus) 0
        \<and> (\<forall>dn. first_free (devicemap bus) (nat (devnum_next bus)) dn
               \<or> (none_free (devicemap bus) (nat (devnum_next bus))
                   \<and> first_free (devicemap bus) 1 dn)
             \<longrightarrow> 1 \<le> dn \<and> dn \<le> 127
               \<and> udev' = udev\<lparr>devnum := int dn\<rparr>
               \<and> bus' = \<lparr>devicemap = set_bit dn (devicemap bus),
                         devnum_next = (if dn \<ge> 127 then 1 else int dn + 1)\<rparr>)
        \<and> (none_free (devicemap bus) 1 \<longrightarrow> udev' = udev \<and> bus' = bus\<lparr>devnum_next := 1\<rparr>))"
proof
  assume h: "\<not> wusb udev \<and> 1 \<le> devnum_next bus \<and> devnum_next bus \<le> 127"
  let ?m = "devicemap bus"
  let ?a = "nat (devnum_next bus)"
  let ?d0 = "find_next_zero_bit ?m 128 ?a"
  let ?d1 = "find_next_zero_bit ?m 128 1"
  from h have a: "1 \<le> ?a" "?a \<le> 128" by linarith+
  from h have cd: "choose_devnum bus udev =
     (let d0 = ?d0; dn = (if d0 \<ge> 128 then ?d1 else d0)
      in Inr (assign_devnum (bus\<lparr>devnum_next := (if dn \<ge> 127 then 1 else int dn + 1)\<rparr>)
                udev (int dn)))"
    by (intro choose_devnum_nonwusb) simp_all
  note f0 = find_next_zero_bit_first_free [OF a(2), of ?m]
  have f1: "if ?d1 < 128 then first_free ?m 1 ?d1 else ?d1 = 128 \<and> none_free ?m 1"
    by (rule find_next_zero_bit_first_free) simp
  show "\<exists>bus' udev'. choose_devnum bus udev = Inr (bus', udev')
        \<and> 1 \<le> devnum_next bus' \<and> devnum_next bus' \<le> 127
        \<and> bit (devicemap bus') 0 = bit (devicemap bus) 0
        \<and> (\<forall>dn. first_free ?m ?a dn \<or> (none_free ?m ?a \<and> first_free ?m 1 dn)
             \<longrightarrow> 1 \<le> dn \<and> dn \<le> 127
               \<and> udev' = udev\<lparr>devnum := int dn\<rparr>
               \<and> bus' = \<lparr>devicemap = set_bit dn ?m,
                         devnum_next = (if dn \<ge> 127 then 1 else int dn + 1)\<rparr>)
        \<and> (none_free ?m 1 \<longrightarrow> udev' = udev \<and> bus' = bus\<lparr>devnum_next := 1\<rparr>)"
  proof (cases "?d0 < 128")
    case True
    with f0 have ff: "first_free ?m ?a ?d0" by simp
    then have ge: "1 \<le> ?d0" using a by (simp add: first_free_def)
    from ff have nn: "\<not> none_free ?m ?a" by (rule first_free_not_none)
    then have nn1: "\<not> none_free ?m 1" using a none_free_mono by blast
    from True cd have r: "choose_devnum bus udev =
        Inr (\<lparr>devicemap = set_bit ?d0 ?m,
              devnum_next = (if ?d0 \<ge> 127 then 1 else int ?d0 + 1)\<rparr>,
             udev\<lparr>devnum := int ?d0\<rparr>)"
      by (simp add: Let_def assign_devnum_found)
    have u: "\<And>dn. first_free ?m ?a dn \<Longrightarrow> dn = ?d0"
      using ff first_free_unique by blast
    from ge have b0: "bit (set_bit ?d0 ?m) 0 = bit ?m 0"
      by (simp add: bit_set_bit_iff)
    show ?thesis
      unfolding r using True ge nn nn1 b0 u by auto
  next
    case False
    with f0 have d0: "?d0 = 128" and nf: "none_free ?m ?a" by simp_all
    then have nff: "\<And>dn. \<not> first_free ?m ?a dn" using first_free_not_none by blast
    show ?thesis
    proof (cases "?d1 < 128")
      case True
      with f1 have ff: "first_free ?m 1 ?d1" by simp
      then have ge: "1 \<le> ?d1" by (simp add: first_free_def)
      from ff have nn1: "\<not> none_free ?m 1" by (rule first_free_not_none)
      from True d0 cd have r: "choose_devnum bus udev =
        Inr (\<lparr>devicemap = set_bit ?d1 ?m,
              devnum_next = (if ?d1 \<ge> 127 then 1 else int ?d1 + 1)\<rparr>,
             udev\<lparr>devnum := int ?d1\<rparr>)"
        by (simp add: Let_def assign_devnum_found)
      have u: "\<And>dn. first_free ?m 1 dn \<Longrightarrow> dn = ?d1"
        using ff first_free_unique by blast
      from ge have b0: "bit (set_bit ?d1 ?m) 0 = bit ?m 0"
        by (simp add: bit_set_bit_iff)
      show ?thesis
        unfolding r using True ge nn1 nff b0 u by auto
    next
      case False
      with f1 have d1: "?d1 = 128" and nf1: "none_free ?m 1" by simp_all
      then have nff1: "\<And>dn. \<not> first_free ?m 1 dn" using first_free_not_none by blast
      from d0 d1 cd have r: "choose_devnum bus udev = Inr (bus\<lparr>devnum_next := 1\<rparr>, udev)"
        by (simp add: Let_def assign_devnum_def)
      show ?thesis
        unfolding r using nff nff1 by auto
    qed
  qed
qed

lemma find_next_zero_bit_free:
  "find_next_zero_bit m sz offset < sz \<Longrightarrow> \<not> bit m (find_next_zero_bit m sz offset)"
proof (cases "offset \<le> sz")
  case True
  assume "find_next_zero_bit m sz offset < sz"
  with find_next_zero_bit_spec [OF True, of m] show ?thesis by simp
next
  case False
  assume "find_next_zero_bit m sz offset < sz"
  with False show ?thesis by (simp add: find_next_zero_bit_beyond)
qed

lemma choose_devnum_result:
  assumes "choose_devnum b d = Inr (b', d')"
  shows "(d' = d \<and> devicemap b' = devicemap b)
       \<or> (\<exists>dn. dn < 128 \<and> \<not> bit (devicemap b) dn \<and> d' = d\<lparr>devnum := int dn\<rparr>
              \<and> devicemap b' = set_bit dn (devicemap b))"
proof (cases "wusb d")
  case True
  with assms show ?thesis
    by (auto simp: choose_devnum_def Let_def assign_devnum_def split: if_splits
        intro!: exI [of _ "nat (uint (portnum d) + 1)"])
next
  case False
  let ?m = "devicemap b"
  let ?d0 = "find_next_zero_bit ?m 128 (unat (word_of_int (devnum_next b) :: 64 word))"
  let ?d1 = "find_next_zero_bit ?m 128 1"
  let ?dn = "if ?d0 \<ge> 128 then ?d1 else ?d0"
  from False assms have r: "(b', d') =
      assign_devnum (b\<lparr>devnum_next := (if int ?dn \<ge> 127 then 1 else int ?dn + 1)\<rparr>) d (int ?dn)"
    by (simp add: choose_devnum_def Let_def split: if_splits)
  show ?thesis
  proof (cases "?dn < 128")
    case True
    then have "\<not> bit ?m ?dn"
      by (auto simp: find_next_zero_bit_free split: if_splits)
    with True r show ?thesis
      by (intro disjI2 exI [of _ ?dn]) (simp add: assign_devnum_def)
  next
    case False
    with r show ?thesis by (simp add: assign_devnum_def)
  qed
qed

lemma choose_devnum_of_inv:
  assumes inv: "devnum_inv s" and c: "choose_devnum_of u s = Inr s'"
  shows "devnum_inv s'"
proof -
  from c obtain b' d' where cd: "choose_devnum (the_bus s) (udevs s u) = Inr (b', d')"
    and s': "s' = s\<lparr>the_bus := b', udevs := (udevs s)(u := d')\<rparr>"
    by (auto simp: choose_devnum_of_def split: sum.splits)
  from choose_devnum_result [OF cd] show ?thesis
  proof
    assume "d' = udevs s u \<and> devicemap b' = devicemap (the_bus s)"
    with inv s' show ?thesis by (auto simp: devnum_inv_def)
  next
    assume "\<exists>dn. dn < 128 \<and> \<not> bit (devicemap (the_bus s)) dn
        \<and> d' = (udevs s u)\<lparr>devnum := int dn\<rparr>
        \<and> devicemap b' = set_bit dn (devicemap (the_bus s))"
    then obtain dn where dn: "dn < 128" "\<not> bit (devicemap (the_bus s)) dn"
      "d' = (udevs s u)\<lparr>devnum := int dn\<rparr>"
      "devicemap b' = set_bit dn (devicemap (the_bus s))"
      by blast
    have other: "devnum (udevs s v) \<noteq> int dn" if "0 < devnum (udevs s v)" for v
    proof
      assume e: "devnum (udevs s v) = int dn"
      from inv that have "bit (devicemap (the_bus s)) (nat (devnum (udevs s v)))"
        by (simp add: devnum_inv_def)
      with e dn(2) show False by simp
    qed
    show ?thesis
      unfolding devnum_inv_def
    proof (intro conjI allI impI)
      fix v assume p: "0 < devnum (udevs s' v)"
      show "devnum (udevs s' v) < 128"
        using p inv s' dn by (cases "v = u") (auto simp: devnum_inv_def)
      show "bit (devicemap (the_bus s')) (nat (devnum (udevs s' v)))"
        using p inv s' dn by (cases "v = u") (auto simp: devnum_inv_def bit_set_bit_iff)
    next
      fix v w assume p: "0 < devnum (udevs s' v) \<and> devnum (udevs s' v) = devnum (udevs s' w)"
      show "v = w"
      proof (cases "v = u")
        case True
        with p s' dn other [of w] show ?thesis by (cases "w = u") auto
      next
        case False
        with p s' dn other [of v] inv show ?thesis
          by (cases "w = u") (auto simp: devnum_inv_def)
      qed
    qed
  qed
qed

lemma release_devnum_of_inv:
  assumes inv: "devnum_inv s" and c: "release_devnum_of u s = Inr s'"
  shows "devnum_inv s'"
proof (cases "devnum (udevs s u) > 0")
  case False
  with c have "s' = s"
    by (auto simp: release_devnum_of_def release_devnum_def)
  with inv show ?thesis by simp
next
  case True
  with c have lt: "devnum (udevs s u) < 128"
    and s': "s' = s\<lparr>the_bus := (the_bus s)\<lparr>devicemap :=
                 unset_bit (nat (devnum (udevs s u))) (devicemap (the_bus s))\<rparr>,
               udevs := (udevs s)(u := (udevs s u)\<lparr>devnum := - 1\<rparr>)\<rparr>"
    by (auto simp: release_devnum_of_def release_devnum_def split: if_splits)
  have other: "devnum (udevs s v) \<noteq> devnum (udevs s u)" if "v \<noteq> u" for v
    using inv True that unfolding devnum_inv_def by metis
  show ?thesis
    unfolding devnum_inv_def
  proof (intro conjI allI impI)
    fix v assume p: "0 < devnum (udevs s' v)"
    then have vu: "v \<noteq> u" using s' by auto
    with p s' inv show "devnum (udevs s' v) < 128"
      by (auto simp: devnum_inv_def)
    from vu p s' inv other [OF vu]
    show "bit (devicemap (the_bus s')) (nat (devnum (udevs s' v)))"
      by (auto simp: devnum_inv_def bit_unset_bit_iff)
  next
    fix v w assume p: "0 < devnum (udevs s' v) \<and> devnum (udevs s' v) = devnum (udevs s' w)"
    then have "v \<noteq> u" "w \<noteq> u" using s' by auto
    with p s' inv show "v = w" by (auto simp: devnum_inv_def)
  qed
qed

lemma devnum_ops_inv:
  "devnum_inv s \<Longrightarrow> devnum_ops ops s = Inr s' \<Longrightarrow> devnum_inv s'"
proof (induction ops s rule: devnum_ops.induct)
  case (1 s)
  then show ?case by simp
next
  case (2 u ops s)
  then show ?case
    by (auto split: sum.splits dest: choose_devnum_of_inv)
next
  case (3 u ops s)
  then show ?case
    by (auto split: sum.splits dest: release_devnum_of_inv)
qed

text \<open>
  C6. For a device that is not wireless, on a bus whose next-start position lies in
  1..127 (where \<open>choose_devnum\<close> itself keeps it), \<open>choose_devnum\<close> takes the first
  free number from \<open>devnum_next\<close> on; when there is none it takes the first free
  number from 1 on. The number taken lies in 1..127, so address 0 is never given out and
  bit 0 is never set. The map gets the bit, the device gets the number, and the
  next-start position becomes 1 after 127 and the number plus one otherwise. With no
  free number from 1 on, device and map stay as they were.
\<close>

theorem choose_devnum_scan:
  "\<not> wusb udev \<and> 1 \<le> devnum_next bus \<and> devnum_next bus \<le> 127 \<longrightarrow>
     (\<exists>bus' udev'. choose_devnum bus udev = Inr (bus', udev')
        \<and> 1 \<le> devnum_next bus' \<and> devnum_next bus' \<le> 127
        \<and> bit (devicemap bus') 0 = bit (devicemap bus) 0
        \<and> (\<forall>dn. first_free (devicemap bus) (nat (devnum_next bus)) dn
               \<or> (none_free (devicemap bus) (nat (devnum_next bus))
                   \<and> first_free (devicemap bus) 1 dn)
             \<longrightarrow> 1 \<le> dn \<and> dn \<le> 127
               \<and> udev' = udev\<lparr>devnum := int dn\<rparr>
               \<and> bus' = \<lparr>devicemap = set_bit dn (devicemap bus),
                         devnum_next = (if dn \<ge> 127 then 1 else int dn + 1)\<rparr>)
        \<and> (none_free (devicemap bus) 1 \<longrightarrow> udev' = udev \<and> bus' = bus\<lparr>devnum_next := 1\<rparr>))"
  by (rule choose_devnum_scan_aux)

theorem choose_devnum_scan_witness:
  "\<not> wusb fresh_struct \<and> devnum_next high_bus = 126
   \<and> none_free (devicemap high_bus) 126 \<and> first_free (devicemap high_bus) 1 2
   \<and> choose_devnum high_bus fresh_struct
       = Inr (\<lparr>devicemap = set_bit 2 (devicemap high_bus), devnum_next = 3\<rparr>,
              fresh_struct\<lparr>devnum := 2\<rparr>)"
proof -
  have n: "none_free (devicemap high_bus) 126"
    unfolding none_free_def high_bus_def
  proof (intro allI impI)
    fix j :: nat assume "126 \<le> j \<and> j < 128"
    then have "j = 126 \<or> j = 127" by linarith
    then show "bit (devicemap \<lparr>devicemap = set_bit 127 (set_bit 126 (set_bit 1 0)),
        devnum_next = 126\<rparr>) j"
      by (auto simp: bit_simps)
  qed
  have f: "first_free (devicemap high_bus) 1 2"
    unfolding first_free_def high_bus_def
  proof (intro conjI allI impI)
    fix j :: nat assume "1 \<le> j \<and> j < 2"
    then have "j = 1" by linarith
    then show "bit (devicemap \<lparr>devicemap = set_bit 127 (set_bit 126 (set_bit 1 0)),
        devnum_next = 126\<rparr>) j"
      by (simp add: bit_simps)
  qed (simp_all add: bit_simps)
  from choose_devnum_scan [of fresh_struct high_bus] n f
  show ?thesis by (auto simp: fresh_struct_def high_bus_def)
qed

lemma choose_devnum_of_issue:
  assumes "\<not> wusb (udevs s v)" "1 \<le> devnum_next (the_bus s)" "devnum_next (the_bus s) \<le> 127"
    and "first_free (devicemap (the_bus s)) (nat (devnum_next (the_bus s))) dn
       \<or> (none_free (devicemap (the_bus s)) (nat (devnum_next (the_bus s)))
           \<and> first_free (devicemap (the_bus s)) 1 dn)"
  shows "\<exists>s'. choose_devnum_of v s = Inr s' \<and> devnum (udevs s' v) = int dn"
proof -
  from choose_devnum_scan_aux [of "udevs s v" "the_bus s"] assms
  obtain b' d' where "choose_devnum (the_bus s) (udevs s v) = Inr (b', d')"
    "d' = (udevs s v)\<lparr>devnum := int dn\<rparr>"
    by blast
  then show ?thesis by (simp add: choose_devnum_of_def)
qed

text \<open>
  C7. The invariant (every device number held is below 128 with its bit set, and no two
  devices of the bus hold the same number) is kept by \<open>choose_devnum\<close>, by
  \<open>release_devnum\<close>, and so by every sequence of them. After \<open>release_devnum\<close> of a
  device that held \<open>addr\<close> the bit of \<open>addr\<close> is clear, and a \<open>choose_devnum\<close> that
  follows gives out \<open>addr\<close> again whenever \<open>addr\<close> is the first free number in its
  scan order.
\<close>

theorem devnum_allocation_injective:
  "devnum_inv s \<longrightarrow>
     (choose_devnum_of u s = Inr s' \<longrightarrow> devnum_inv s')
     \<and> (release_devnum_of u s = Inr s'' \<longrightarrow> devnum_inv s'')
     \<and> (devnum_ops ops s = Inr t \<longrightarrow> devnum_inv t)
     \<and> (0 < devnum (udevs s u) \<longrightarrow>
          (\<exists>s1. release_devnum_of u s = Inr s1
             \<and> devnum (udevs s1 u) = - 1
             \<and> \<not> bit (devicemap (the_bus s1)) (nat (devnum (udevs s u)))
             \<and> (\<not> wusb (udevs s1 v)
                  \<and> 1 \<le> devnum_next (the_bus s1) \<and> devnum_next (the_bus s1) \<le> 127
                  \<and> (first_free (devicemap (the_bus s1)) (nat (devnum_next (the_bus s1)))
                        (nat (devnum (udevs s u)))
                      \<or> (none_free (devicemap (the_bus s1)) (nat (devnum_next (the_bus s1)))
                          \<and> first_free (devicemap (the_bus s1)) 1 (nat (devnum (udevs s u)))))
                  \<longrightarrow> (\<exists>s2. choose_devnum_of v s1 = Inr s2
                         \<and> devnum (udevs s2 v) = devnum (udevs s u)))))"
proof (intro impI conjI)
  assume inv: "devnum_inv s"
  {
    assume "choose_devnum_of u s = Inr s'"
    with inv show "devnum_inv s'" by (rule choose_devnum_of_inv)
  }
  {
    assume "release_devnum_of u s = Inr s''"
    with inv show "devnum_inv s''" by (rule release_devnum_of_inv)
  }
  {
    assume "devnum_ops ops s = Inr t"
    with inv show "devnum_inv t" by (rule devnum_ops_inv)
  }
  assume pos: "0 < devnum (udevs s u)"
  with inv have lt: "devnum (udevs s u) < 128" by (simp add: devnum_inv_def)
  let ?a = "devnum (udevs s u)"
  let ?s1 = "s\<lparr>the_bus := (the_bus s)\<lparr>devicemap := unset_bit (nat ?a) (devicemap (the_bus s))\<rparr>,
               udevs := (udevs s)(u := (udevs s u)\<lparr>devnum := - 1\<rparr>)\<rparr>"
  from pos lt have r: "release_devnum_of u s = Inr ?s1"
    by (simp add: release_devnum_of_def release_devnum_def)
  have nb: "\<not> bit (devicemap (the_bus ?s1)) (nat ?a)"
    by (simp add: bit_unset_bit_iff)
  have re: "\<exists>s2. choose_devnum_of v ?s1 = Inr s2 \<and> devnum (udevs s2 v) = ?a"
    if "\<not> wusb (udevs ?s1 v)
        \<and> 1 \<le> devnum_next (the_bus ?s1) \<and> devnum_next (the_bus ?s1) \<le> 127
        \<and> (first_free (devicemap (the_bus ?s1)) (nat (devnum_next (the_bus ?s1))) (nat ?a)
            \<or> (none_free (devicemap (the_bus ?s1)) (nat (devnum_next (the_bus ?s1)))
                \<and> first_free (devicemap (the_bus ?s1)) 1 (nat ?a)))"
  proof -
    from that choose_devnum_of_issue [of ?s1 v "nat ?a"]
    obtain s2 where "choose_devnum_of v ?s1 = Inr s2" "devnum (udevs s2 v) = int (nat ?a)"
      by blast
    with pos show ?thesis by simp
  qed
  show "\<exists>s1. release_devnum_of u s = Inr s1
             \<and> devnum (udevs s1 u) = - 1
             \<and> \<not> bit (devicemap (the_bus s1)) (nat (devnum (udevs s u)))
             \<and> (\<not> wusb (udevs s1 v)
                  \<and> 1 \<le> devnum_next (the_bus s1) \<and> devnum_next (the_bus s1) \<le> 127
                  \<and> (first_free (devicemap (the_bus s1)) (nat (devnum_next (the_bus s1)))
                        (nat (devnum (udevs s u)))
                      \<or> (none_free (devicemap (the_bus s1)) (nat (devnum_next (the_bus s1)))
                          \<and> first_free (devicemap (the_bus s1)) 1 (nat (devnum (udevs s u)))))
                  \<longrightarrow> (\<exists>s2. choose_devnum_of v s1 = Inr s2
                         \<and> devnum (udevs s2 v) = devnum (udevs s u)))"
    apply (rule exI [of _ ?s1])
    apply (intro conjI impI)
       apply (rule r)
      apply simp
     apply (rule nb)
    apply (erule re)
    done
qed

theorem devnum_allocation_injective_witness:
  "devnum_inv two_device_bus
   \<and> devnum (udevs two_device_bus 1) = 2
   \<and> release_devnum_of 1 two_device_bus = Inr one_device_bus
   \<and> devnum_inv one_device_bus
   \<and> \<not> bit (devicemap (the_bus one_device_bus)) 2
   \<and> first_free (devicemap (the_bus one_device_bus)) 1 2
   \<and> (\<exists>s2. choose_devnum_of 2 one_device_bus = Inr s2 \<and> devnum (udevs s2 2) = 2)"
proof -
  have inv: "devnum_inv two_device_bus"
    by (auto simp: devnum_inv_def two_device_bus_def fresh_struct_def split: if_splits)
  have r: "release_devnum_of 1 two_device_bus = Inr one_device_bus"
    by (simp add: release_devnum_of_def release_devnum_def two_device_bus_def
        one_device_bus_def fresh_struct_def fun_upd_twist)
  have f: "first_free (devicemap (the_bus one_device_bus)) 1 2"
    unfolding first_free_def one_device_bus_def
  proof (intro conjI allI impI)
    fix j :: nat assume "1 \<le> j \<and> j < 2"
    then have "j = 1" by linarith
    then show "bit (devicemap (the_bus \<lparr>the_bus = \<lparr>devicemap = 2, devnum_next = 1\<rparr>,
      udevs = (\<lambda>u. fresh_struct)
        (0 := fresh_struct\<lparr>devnum := 1\<rparr>, 1 := fresh_struct\<lparr>devnum := - 1\<rparr>)\<rparr>)) j"
      by simp
  qed simp_all
  have p: "\<not> wusb (udevs one_device_bus 2) \<and> devnum_next (the_bus one_device_bus) = 1
      \<and> devnum (udevs two_device_bus 1) = 2"
    by (simp add: one_device_bus_def two_device_bus_def fresh_struct_def)
  from devnum_allocation_injective [of two_device_bus 1 _ one_device_bus "[]" _ 2] inv r f p
  show ?thesis by auto
qed

subsection \<open>The pending-event queue\<close>

lemma kick_khubd_distinct:
  "distinct (hub_event_list s) \<Longrightarrow> distinct (hub_event_list (kick_khubd hub s))"
  by (simp add: kick_khubd_def list_empty_event_list_def)

lemma hub_disconnect_distinct:
  "distinct (hub_event_list s) \<Longrightarrow> distinct (hub_event_list (hub_disconnect hub s))"
  by (simp add: hub_disconnect_def list_empty_event_list_def Let_def)

lemma hub_events_take_distinct:
  "distinct (hub_event_list s) \<Longrightarrow> distinct (hub_event_list (snd (hub_events_take s)))"
  by (auto simp: hub_events_take_def split: list.splits)

lemma distinct_count_list_le1: "distinct xs \<Longrightarrow> count_list xs x \<le> 1"
  by (induction xs) (auto simp: count_list_0_iff)

lemma khubd_step_distinct:
  "distinct (hub_event_list s) \<Longrightarrow> distinct (hub_event_list (khubd_step s ev))"
  by (cases ev) (simp_all add: kick_khubd_distinct hub_disconnect_distinct
      hub_events_take_distinct)

lemma khubd_run_distinct:
  "distinct (hub_event_list s) \<Longrightarrow> distinct (hub_event_list (khubd_run evs s))"
  unfolding khubd_run_def
  by (induction evs arbitrary: s) (simp_all add: khubd_step_distinct)

lemma hub_disconnect_retires:
  "distinct (hub_event_list s) \<Longrightarrow> retired (hub_disconnect hub s) hub"
  by (simp add: retired_def hub_disconnect_def list_empty_event_list_def Let_def)

lemma khubd_step_retired:
  "retired s hub \<Longrightarrow> retired (khubd_step s ev) hub"
proof (cases ev)
  case (Kick h)
  assume "retired s hub"
  with Kick show ?thesis
    by (auto simp: retired_def kick_khubd_def list_empty_event_list_def)
next
  case (Disconnect h)
  assume "retired s hub"
  with Disconnect show ?thesis
    by (auto simp: retired_def hub_disconnect_def list_empty_event_list_def Let_def
        dest: notin_set_remove1)
next
  case Take
  assume "retired s hub"
  with Take show ?thesis
    by (auto simp: retired_def hub_events_take_def split: list.splits)
qed

lemma khubd_run_retired:
  "retired s hub \<Longrightarrow> retired (khubd_run evs s) hub"
  unfolding khubd_run_def
  by (induction evs arbitrary: s) (simp_all add: khubd_step_retired)

lemma khubd_run_append: "khubd_run (xs @ ys) s = khubd_run ys (khubd_run xs s)"
  by (simp add: khubd_run_def)

text \<open>
  C8. Starting from a queue without repetition, after any sequence of \<open>kick_khubd\<close>,
  \<open>hub_disconnect\<close> and queue removals by \<open>hub_events\<close>, each taken as one step
  under \<open>hub_event_lock\<close>, no hub is in the queue more than once; and once
  \<open>hub_disconnect\<close> has run for a hub, the hub is flagged disconnected and is not in
  the queue, whatever steps follow. \<open>kick_khubd\<close> changes nothing for a hub that is
  flagged or already queued.
\<close>

theorem hub_queued_at_most_once:
  "distinct (hub_event_list s) \<longrightarrow>
     distinct (hub_event_list (khubd_run evs s))
     \<and> count_list (hub_event_list (khubd_run evs s)) hub \<le> 1
     \<and> hub \<notin> set (hub_event_list (khubd_run (evs @ Disconnect hub # evs') s))
     \<and> disconnected (khubd_run (evs @ Disconnect hub # evs') s) hub
     \<and> (disconnected s hub \<or> hub \<in> set (hub_event_list s) \<longrightarrow> kick_khubd hub s = s)"
proof
  have k: "disconnected s hub \<or> hub \<in> set (hub_event_list s) \<longrightarrow> kick_khubd hub s = s"
    by (auto simp: kick_khubd_def list_empty_event_list_def)
  assume d: "distinct (hub_event_list s)"
  then have d1: "distinct (hub_event_list (khubd_run evs s))"
    by (rule khubd_run_distinct)
  then have "retired (hub_disconnect hub (khubd_run evs s)) hub"
    by (rule hub_disconnect_retires)
  then have "retired (khubd_run evs' (hub_disconnect hub (khubd_run evs s))) hub"
    by (rule khubd_run_retired)
  then have r: "retired (khubd_run (evs @ Disconnect hub # evs') s) hub"
    by (simp add: khubd_run_def)
  from d1 have "count_list (hub_event_list (khubd_run evs s)) hub \<le> 1"
    by (rule distinct_count_list_le1)
  with d1 r k show "distinct (hub_event_list (khubd_run evs s))
     \<and> count_list (hub_event_list (khubd_run evs s)) hub \<le> 1
     \<and> hub \<notin> set (hub_event_list (khubd_run (evs @ Disconnect hub # evs') s))
     \<and> disconnected (khubd_run (evs @ Disconnect hub # evs') s) hub
     \<and> (disconnected s hub \<or> hub \<in> set (hub_event_list s) \<longrightarrow> kick_khubd hub s = s)"
    by (simp add: retired_def)
qed

theorem hub_queued_at_most_once_witness:
  "distinct (hub_event_list idle_khubd)
   \<and> hub_event_list (khubd_run [Kick 1, Kick 1, Kick 2] idle_khubd) = [1, 2]
   \<and> hub_event_list
        (khubd_run ([Kick 1, Kick 1, Kick 2] @ Disconnect 1 # [Kick 1, Kick 3]) idle_khubd)
      = [2, 3]
   \<and> disconnected
        (khubd_run ([Kick 1, Kick 1, Kick 2] @ Disconnect 1 # [Kick 1, Kick 3]) idle_khubd) 1"
  using hub_queued_at_most_once [of idle_khubd "[Kick 1, Kick 1, Kick 2]" 1 "[Kick 1, Kick 3]"]
  by (simp add: idle_khubd_def khubd_run_def kick_khubd_def hub_disconnect_def
      list_empty_event_list_def)

subsection \<open>Port ownership\<close>

lemma port_gt_maxchild:
  assumes "0 \<le> mc" "mc < 2 ^ 32"
  shows "(port1 :: 32 word) > word_of_int mc \<longleftrightarrow> int (unat port1) > mc"
proof -
  have "unat (word_of_int mc :: 32 word) = nat mc"
    using assms by (simp add: unsigned_of_int take_bit_int_eq_self)
  moreover have "nat mc < unat port1 \<longleftrightarrow> mc < int (unat port1)"
    using assms by (simp only: nat_less_iff)
  ultimately show ?thesis by (simp only: word_less_nat_alt)
qed

lemma find_port_owner_cases:
  "find_port_owner hdev port1 =
     (case hdev of
        None \<Rightarrow> Inr (- ENODEV, 0)
      | Some d \<Rightarrow>
          (case usb_hub_to_struct_hub hdev of
             None \<Rightarrow> Inr (- ENODEV, 0)
           | Some hub \<Rightarrow>
               if state (dev d) = USB_STATE_NOTATTACHED then Inr (- ENODEV, 0)
               else if port1 = 0 \<or> port1 > word_of_int (maxchild (dev d))
                 then Inr (- EINVAL, 0)
               else if unat port1 - 1 < length (ports hub) then Inr (0, unat port1 - 1)
               else Inl OutOfBounds))"
  by (simp add: find_port_owner_def usb_hub_to_struct_hub_def split: option.splits)

lemma intfdata_of_hub:
  "usb_hub_to_struct_hub (Some d) = Some hub \<Longrightarrow> intfdata d = Some hub"
  by (simp add: usb_hub_to_struct_hub_def split: if_splits)

text \<open>
  C9 (as amended). Every failure of \<open>usb_hub_claim_port\<close> and
  \<open>usb_hub_release_port\<close> leaves the hub device, its owners included, as it was. When
  the device has no hub structure or is NOTATTACHED, both return \<open>-ENODEV\<close>, whatever
  the port. Otherwise both return \<open>-EINVAL\<close> for port 0 and for a port beyond
  \<open>maxchild\<close>; and for a port in range, claiming returns \<open>-EBUSY\<close> when the port has
  an owner, and releasing returns \<open>-ENOENT\<close> when the owner recorded is not the
  caller's.
\<close>

theorem port_owner_failures:
  "(usb_hub_to_struct_hub hdev = None \<or> (\<exists>d. hdev = Some d \<and> state (dev d) = USB_STATE_NOTATTACHED)
      \<longrightarrow> usb_hub_claim_port hdev port1 owner = Inr (- ENODEV, hdev)
        \<and> usb_hub_release_port hdev port1 owner = Inr (- ENODEV, hdev))
   \<and> (hdev = Some d \<and> usb_hub_to_struct_hub hdev = Some hub
        \<and> state (dev d) \<noteq> USB_STATE_NOTATTACHED
        \<and> 0 \<le> maxchild (dev d) \<and> maxchild (dev d) \<le> int (length (ports hub))
        \<and> maxchild (dev d) < 2 ^ 32 \<longrightarrow>
        (port1 = 0 \<or> int (unat port1) > maxchild (dev d) \<longrightarrow>
           usb_hub_claim_port hdev port1 owner = Inr (- EINVAL, hdev)
           \<and> usb_hub_release_port hdev port1 owner = Inr (- EINVAL, hdev))
        \<and> (port1 \<noteq> 0 \<and> int (unat port1) \<le> maxchild (dev d) \<longrightarrow>
             (port_owner (ports hub ! (unat port1 - 1)) \<noteq> None \<longrightarrow>
                usb_hub_claim_port hdev port1 owner = Inr (- EBUSY, hdev))
             \<and> (port_owner (ports hub ! (unat port1 - 1)) \<noteq> owner \<longrightarrow>
                usb_hub_release_port hdev port1 owner = Inr (- ENOENT, hdev))))
   \<and> (usb_hub_claim_port hdev port1 owner = Inr (rc, hdev') \<and> rc \<noteq> 0 \<longrightarrow> hdev' = hdev)
   \<and> (usb_hub_release_port hdev port1 owner = Inr (rc', hdev'') \<and> rc' \<noteq> 0 \<longrightarrow> hdev'' = hdev)"
proof (intro conjI impI)
  assume "usb_hub_to_struct_hub hdev = None
      \<or> (\<exists>d. hdev = Some d \<and> state (dev d) = USB_STATE_NOTATTACHED)"
  then have "find_port_owner hdev port1 = Inr (- ENODEV, 0)"
    by (auto simp: find_port_owner_cases split: option.splits)
  then show "usb_hub_claim_port hdev port1 owner = Inr (- ENODEV, hdev)"
    and "usb_hub_release_port hdev port1 owner = Inr (- ENODEV, hdev)"
    by (simp_all add: usb_hub_claim_port_def usb_hub_release_port_def ENODEV_def)
next
  assume a: "hdev = Some d \<and> usb_hub_to_struct_hub hdev = Some hub
        \<and> state (dev d) \<noteq> USB_STATE_NOTATTACHED
        \<and> 0 \<le> maxchild (dev d) \<and> maxchild (dev d) \<le> int (length (ports hub))
        \<and> maxchild (dev d) < 2 ^ 32"
  then have gt: "port1 > word_of_int (maxchild (dev d)) \<longleftrightarrow> int (unat port1) > maxchild (dev d)"
    by (intro port_gt_maxchild) simp_all
  {
    assume "port1 = 0 \<or> int (unat port1) > maxchild (dev d)"
    with a gt have "find_port_owner hdev port1 = Inr (- EINVAL, 0)"
      by (auto simp: find_port_owner_cases)
    then show "usb_hub_claim_port hdev port1 owner = Inr (- EINVAL, hdev)"
      and "usb_hub_release_port hdev port1 owner = Inr (- EINVAL, hdev)"
      by (simp_all add: usb_hub_claim_port_def usb_hub_release_port_def EINVAL_def)
  }
  {
    assume b: "port1 \<noteq> 0 \<and> int (unat port1) \<le> maxchild (dev d)"
    then have "unat port1 \<noteq> 0" by (simp add: unat_eq_0)
    with a b have "unat port1 - 1 < length (ports hub)" by linarith
    with a b gt have f: "find_port_owner hdev port1 = Inr (0, unat port1 - 1)"
      by (auto simp: find_port_owner_cases)
    from a have i: "intfdata d = Some hub" by (auto intro: intfdata_of_hub)
    {
      assume "port_owner (ports hub ! (unat port1 - 1)) \<noteq> None"
      with f a i show "usb_hub_claim_port hdev port1 owner = Inr (- EBUSY, hdev)"
        by (simp add: usb_hub_claim_port_def get_port_owner_def)
    }
    {
      assume "port_owner (ports hub ! (unat port1 - 1)) \<noteq> owner"
      with f a i show "usb_hub_release_port hdev port1 owner = Inr (- ENOENT, hdev)"
        by (simp add: usb_hub_release_port_def get_port_owner_def)
    }
  }
next
  assume "usb_hub_claim_port hdev port1 owner = Inr (rc, hdev') \<and> rc \<noteq> 0"
  then show "hdev' = hdev"
    by (auto simp: usb_hub_claim_port_def split: sum.splits prod.splits if_splits option.splits)
next
  assume "usb_hub_release_port hdev port1 owner = Inr (rc', hdev'') \<and> rc' \<noteq> 0"
  then show "hdev'' = hdev"
    by (auto simp: usb_hub_release_port_def split: sum.splits prod.splits if_splits option.splits)
qed

theorem port_owner_failures_counterexample:
  "get_port_owner gone_hub 0 = Some 7
   \<and> usb_hub_claim_port (Some gone_hub) 1 (Some 9) = Inr (- ENODEV, Some gone_hub)
   \<and> - ENODEV \<noteq> - EBUSY
   \<and> usb_hub_release_port (Some gone_hub) 1 (Some 9) = Inr (- ENODEV, Some gone_hub)
   \<and> - ENODEV \<noteq> - ENOENT
   \<and> usb_hub_claim_port (Some gone_hub) 0 (Some 9) = Inr (- ENODEV, Some gone_hub)
   \<and> usb_hub_release_port (Some gone_hub) 3 (Some 9) = Inr (- ENODEV, Some gone_hub)
   \<and> - ENODEV \<noteq> - EINVAL"
  by (simp add: usb_hub_claim_port_def usb_hub_release_port_def find_port_owner_def
      usb_hub_to_struct_hub_def gone_hub_def hub_struct_def get_port_owner_def errno_defs)

theorem port_owner_failures_witness:
  "usb_hub_to_struct_hub (Some two_port_hub)
     = Some (Usb_hub [Usb_port None (Some 7), Usb_port (Some leaf_device) None])
   \<and> state (dev two_port_hub) \<noteq> USB_STATE_NOTATTACHED
   \<and> maxchild (dev two_port_hub) = 2
   \<and> usb_hub_claim_port (Some two_port_hub) 1 (Some 9) = Inr (- EBUSY, Some two_port_hub)
   \<and> usb_hub_release_port (Some two_port_hub) 1 (Some 9) = Inr (- ENOENT, Some two_port_hub)
   \<and> usb_hub_claim_port (Some two_port_hub) 0 (Some 9) = Inr (- EINVAL, Some two_port_hub)
   \<and> usb_hub_release_port (Some two_port_hub) 3 (Some 9) = Inr (- EINVAL, Some two_port_hub)
   \<and> usb_hub_claim_port (Some gone_hub) 1 (Some 9) = Inr (- ENODEV, Some gone_hub)
   \<and> usb_hub_claim_port (Some leaf_device) 1 (Some 9) = Inr (- ENODEV, Some leaf_device)"
  using port_owner_failures [where hdev = "Some two_port_hub" and d = two_port_hub
      and hub = "Usb_hub [Usb_port None (Some 7), Usb_port (Some leaf_device) None]"
      and ?port1.0 = 1 and owner = "Some 9"]
    port_owner_failures [where hdev = "Some two_port_hub" and d = two_port_hub
      and hub = "Usb_hub [Usb_port None (Some 7), Usb_port (Some leaf_device) None]"
      and ?port1.0 = 0 and owner = "Some 9"]
    port_owner_failures [where hdev = "Some two_port_hub" and d = two_port_hub
      and hub = "Usb_hub [Usb_port None (Some 7), Usb_port (Some leaf_device) None]"
      and ?port1.0 = 3 and owner = "Some 9"]
    port_owner_failures [where hdev = "Some gone_hub" and ?port1.0 = 1 and owner = "Some 9"]
    port_owner_failures [where hdev = "Some leaf_device" and ?port1.0 = 1 and owner = "Some 9"]
  by (simp add: usb_hub_to_struct_hub_def two_port_hub_def gone_hub_def hub_struct_def
      leaf_device_def leaf_struct_def)

subsection \<open>Topology query\<close>

text \<open>
  C10. \<open>usb_hub_find_child\<close> returns NULL when the hub structure is absent and when
  the port number is below 1 or above \<open>maxchild\<close>. With a port array that has
  \<open>maxchild\<close> entries it never reads outside the array, whatever the port number, and
  for a port number in range it returns the child slot of that port.
\<close>

theorem usb_hub_find_child_total:
  "(usb_hub_to_struct_hub hdev = None \<longrightarrow> usb_hub_find_child hdev port1 = Inr None)
   \<and> (hdev = Some d \<and> (port1 < 1 \<or> port1 > maxchild (dev d)) \<longrightarrow>
        usb_hub_find_child hdev port1 = Inr None)
   \<and> (hdev = Some d \<and> usb_hub_to_struct_hub hdev = Some hub
        \<and> maxchild (dev d) \<le> int (length (ports hub)) \<longrightarrow>
        (\<exists>c. usb_hub_find_child hdev port1 = Inr c)
        \<and> (1 \<le> port1 \<and> port1 \<le> maxchild (dev d) \<longrightarrow>
             usb_hub_find_child hdev port1 = Inr (child (ports hub ! nat (port1 - 1)))))"
  by (auto simp: usb_hub_find_child_def split: option.splits)

theorem usb_hub_find_child_total_witness:
  "usb_hub_to_struct_hub (Some leaf_device) = None
   \<and> usb_hub_find_child (Some leaf_device) 1 = Inr None
   \<and> usb_hub_find_child (Some two_port_hub) 0 = Inr None
   \<and> usb_hub_find_child (Some two_port_hub) 3 = Inr None
   \<and> usb_hub_find_child (Some two_port_hub) 2 = Inr (Some leaf_device)
   \<and> usb_hub_find_child (Some two_port_hub) 1 = Inr None
   \<and> usb_hub_find_child None 1 = Inr None"
  using usb_hub_find_child_total [of "Some leaf_device" 1]
    usb_hub_find_child_total [of "Some two_port_hub" 0 two_port_hub]
    usb_hub_find_child_total [of "Some two_port_hub" 3 two_port_hub]
    usb_hub_find_child_total [of "Some two_port_hub" 2 two_port_hub
      "Usb_hub [Usb_port None (Some 7), Usb_port (Some leaf_device) None]"]
    usb_hub_find_child_total [of "Some two_port_hub" 1 two_port_hub
      "Usb_hub [Usb_port None (Some 7), Usb_port (Some leaf_device) None]"]
    usb_hub_find_child_total [of None 1]
  by (simp add: usb_hub_to_struct_hub_def two_port_hub_def hub_struct_def leaf_device_def
      leaf_struct_def)


end
